theory Spec2Isabelle
  imports Main "HOL-Library.Word"
begin

section \<open>Byte arrays (bytes/mod.ts)\<close>

text \<open>
  A \<^verbatim>\<open>Uint8Array\<close> is a list of 8-bit words.  Reading an index that is not an
  element yields \<^verbatim>\<open>undefined\<close> in JavaScript; \<open>at\<close> returns \<open>None\<close> there.
  Indices are integers, because \<^verbatim>\<open>endsWith\<close> counts down below zero.
\<close>

type_synonym byte = "8 word"
type_synonym bytes = "byte list"

definition at :: "bytes \<Rightarrow> int \<Rightarrow> byte option" where
  "at xs i = (if 0 \<le> i \<and> i < int (length xs) then Some (xs ! nat i) else None)"

text \<open>
  \<^verbatim>\<open>dst.set(src, off)\<close> overwrites \<open>length src\<close> bytes of \<open>dst\<close> from \<open>off\<close> on.
  JavaScript raises a RangeError when \<open>src\<close> does not fit; every caller below
  (\<open>copy\<close> after clamping, \<open>concat_bufs\<close> on an output of the total length) passes
  a \<open>src\<close> that fits.
\<close>

definition set_bytes :: "bytes \<Rightarrow> bytes \<Rightarrow> nat \<Rightarrow> bytes" where
  "set_bytes dst src off = take off dst @ src @ drop (off + length src) dst"

text \<open>
  \<^verbatim>\<open>copy(src, dst, off)\<close>: the offset is clamped into \<open>[0, length dst]\<close>, the
  source is cut to the room that is left, and the number of bytes copied is returned
  together with the updated destination.
\<close>

definition copy :: "bytes \<Rightarrow> bytes \<Rightarrow> nat \<Rightarrow> bytes \<times> nat" where
  "copy src dst off =
     (let off' = max 0 (min off (length dst));
          dstBytesAvailable = length dst - off';
          src' = (if length src > dstBytesAvailable then take dstBytesAvailable src else src)
      in (set_bytes dst src' off', length src'))"

function startsWith_loop :: "bytes \<Rightarrow> bytes \<Rightarrow> nat \<Rightarrow> bool" where
  "startsWith_loop source prefix i =
     (if i < length prefix
      then (if at source (int i) \<noteq> at prefix (int i) then False
            else startsWith_loop source prefix (i + 1))
      else True)"
  by pat_completeness auto
termination
  by (relation "measure (\<lambda>(source, prefix, i). length prefix - i)") auto

declare startsWith_loop.simps [simp del]

definition startsWith :: "bytes \<Rightarrow> bytes \<Rightarrow> bool" where
  "startsWith source prefix = startsWith_loop source prefix 0"

function endsWith_loop :: "bytes \<Rightarrow> bytes \<Rightarrow> int \<Rightarrow> int \<Rightarrow> bool" where
  "endsWith_loop source suffix srci sfxi =
     (if sfxi \<ge> 0
      then (if at source srci \<noteq> at suffix sfxi then False
            else endsWith_loop source suffix (srci - 1) (sfxi - 1))
      else True)"
  by pat_completeness auto
termination
  by (relation "measure (\<lambda>(source, suffix, srci, sfxi). nat (sfxi + 1))") auto

declare endsWith_loop.simps [simp del]

definition endsWith :: "bytes \<Rightarrow> bytes \<Rightarrow> bool" where
  "endsWith source suffix =
     endsWith_loop source suffix (int (length source) - 1) (int (length suffix) - 1)"

text \<open>
  Errors are values.  \<open>External n\<close> stands for an error object thrown by a sink or a
  source.
\<close>

datatype errkind =
    RangeError string
  | PlainError string
  | AssertionError string
  | BufferFull
  | PartialRead
  | External nat

text \<open>
  JavaScript numbers are IEEE 754 doubles.  \<^verbatim>\<open>repeat\<close> and \<^verbatim>\<open>concat\<close> compute with
  lengths and counts, which are not negative.  A finite double that is not negative is
  a multiple of \<open>2^-1074\<close> with at most 53 significant bits, below \<open>2^1024\<close>:
  \<open>Finite N\<close> is the double of value \<open>N * 2^-1074\<close>, for \<open>N \<ge> 0\<close>.
\<close>

datatype double = Finite int | Infinity | NaN

function bit_length :: "int \<Rightarrow> nat" where
  "bit_length n = (if n \<le> 0 then 0 else Suc (bit_length (n div 2)))"
  by pat_completeness auto
termination
  by (relation "measure nat") auto

declare bit_length.simps [simp del]

text \<open>
  Rounding to nearest, ties to even: the double nearest to \<open>num / den\<close>, both counted
  in units of \<open>2^-1074\<close> (\<open>num \<ge> 0\<close>, \<open>den > 0\<close>).  Around a value of \<open>b > 53\<close> bits
  the doubles are \<open>2^(b - 53)\<close> units apart, below that one unit; a result of
  \<open>2^1024\<close> or more is \<^verbatim>\<open>Infinity\<close>.
\<close>

definition round_double :: "int \<Rightarrow> int \<Rightarrow> double" where
  "round_double num den =
     (let ulp = 2 ^ (bit_length (num div den) - 53);
          lo = num div (den * ulp);
          rest = num mod (den * ulp);
          m = (if 2 * rest < den * ulp \<or> (2 * rest = den * ulp \<and> even lo) then lo else lo + 1)
      in if m * ulp \<ge> 2 ^ 2098 then Infinity else Finite (m * ulp))"

text \<open>
  The double of an integer \<open>n \<ge> 0\<close> that is a double, as every array length is and
  every integer below \<open>2^53\<close>.
\<close>

definition number :: "int \<Rightarrow> double" where
  "number n = Finite (n * 2 ^ 1074)"

text \<open>\<^verbatim>\<open>x + y\<close>, \<^verbatim>\<open>x * y\<close>, \<^verbatim>\<open>x / y\<close> and \<^verbatim>\<open>x !== y\<close> on doubles that are not negative.\<close>

fun fl_add :: "double \<Rightarrow> double \<Rightarrow> double" where
  "fl_add (Finite a) (Finite b) = round_double (a + b) 1"
| "fl_add NaN y = NaN"
| "fl_add x NaN = NaN"
| "fl_add x y = Infinity"

fun fl_mul :: "double \<Rightarrow> double \<Rightarrow> double" where
  "fl_mul (Finite a) (Finite b) = round_double (a * b) (2 ^ 1074)"
| "fl_mul NaN y = NaN"
| "fl_mul x NaN = NaN"
| "fl_mul (Finite a) Infinity = (if a = 0 then NaN else Infinity)"
| "fl_mul Infinity (Finite b) = (if b = 0 then NaN else Infinity)"
| "fl_mul Infinity Infinity = Infinity"

fun fl_div :: "double \<Rightarrow> double \<Rightarrow> double" where
  "fl_div (Finite a) (Finite b) =
     (if b = 0 then (if a = 0 then NaN else Infinity) else round_double (a * 2 ^ 1074) b)"
| "fl_div NaN y = NaN"
| "fl_div x NaN = NaN"
| "fl_div (Finite a) Infinity = Finite 0"
| "fl_div Infinity (Finite b) = Infinity"
| "fl_div Infinity Infinity = NaN"

definition strict_neq :: "double \<Rightarrow> double \<Rightarrow> bool" where
  "strict_neq x y \<longleftrightarrow> x = NaN \<or> y = NaN \<or> x \<noteq> y"

text \<open>
  \<^verbatim>\<open>new Uint8Array(length)\<close>: a zeroed array.  The length is converted as the
  language prescribes (ToIndex): cut to an integer, NaN taken as 0, and a RangeError
  above \<open>2^53 - 1\<close>.  An engine also raises a RangeError for a smaller length that it
  cannot allocate; memory is not modelled.
\<close>

definition new_Uint8Array :: "double \<Rightarrow> errkind + bytes" where
  "new_Uint8Array len =
     (case len of
        NaN \<Rightarrow> Inr []
      | Infinity \<Rightarrow> Inl (RangeError ''Invalid typed array length'')
      | Finite N \<Rightarrow>
          if N div 2 ^ 1074 > 2 ^ 53 - 1 then Inl (RangeError ''Invalid typed array length'')
          else Inr (replicate (nat (N div 2 ^ 1074)) 0))"

text \<open>
  \<^verbatim>\<open>repeat(origin, count)\<close>.  \<open>count\<close> ranges over the integers that are doubles, so
  the test \<^verbatim>\<open>Math.floor(count) !== count\<close> never fires and is left out.  The overflow
  test and the length of the new array are computed in doubles, as the code computes
  them; \<open>bp\<close> stays below twice the length of an array and is exact.  The doubling
  loop is a \<^verbatim>\<open>for\<close> loop without a bound of its own, hence the option type.
\<close>

partial_function (option) repeat_loop :: "bytes \<Rightarrow> nat \<Rightarrow> bytes option" where
  "repeat_loop nb bp =
     (if bp < length nb
      then repeat_loop (fst (copy (take bp nb) nb bp)) (bp * 2)
      else Some nb)"

declare repeat_loop.simps [code]

definition repeat :: "bytes \<Rightarrow> int \<Rightarrow> (errkind + bytes) option" where
  "repeat origin count =
     (if count = 0 then Some (Inr [])
      else if count < 0 then Some (Inl (RangeError ''bytes: negative repeat count''))
      else if strict_neq (fl_div (fl_mul (number (int (length origin))) (number count))
                            (number count))
                 (number (int (length origin)))
        then Some (Inl (PlainError ''bytes: repeat count causes overflow''))
      else
        (case new_Uint8Array (fl_mul (number (int (length origin))) (number count)) of
           Inl e \<Rightarrow> Some (Inl e)
         | Inr nb \<Rightarrow>
             (let (nb', bp) = copy origin nb 0
              in map_option Inr (repeat_loop nb' bp))))"

text \<open>
  \<^verbatim>\<open>concat(...buf)\<close>: the lengths are summed in doubles, and a zeroed output of the
  total length is filled in argument order.
\<close>

fun concat_fill :: "bytes \<Rightarrow> nat \<Rightarrow> bytes list \<Rightarrow> bytes" where
  "concat_fill output index [] = output"
| "concat_fill output index (b # bs) =
     concat_fill (set_bytes output b index) (index + length b) bs"

definition concat_bufs :: "bytes list \<Rightarrow> errkind + bytes" where
  "concat_bufs buf =
     (let length' = foldl (\<lambda>l b. fl_add l (number (int (length b)))) (number 0) buf
      in case new_Uint8Array length' of
           Inl e \<Rightarrow> Inl e
         | Inr output \<Rightarrow> Inr (concat_fill output 0 buf))"

section \<open>Delimiter splitting (io/bufio.ts: createLPS, readDelim)\<close>

text \<open>
  A JavaScript variable that holds an index is an integer or, after an out-of-range
  read, \<^verbatim>\<open>undefined\<close> (\<open>None\<close>).  Indexing with \<^verbatim>\<open>undefined\<close> or with
  \<^verbatim>\<open>undefined - 1\<close> (NaN) reads \<^verbatim>\<open>undefined\<close> again.
\<close>

type_synonym jsnum = "int option"

fun at_val :: "bytes \<Rightarrow> jsnum \<Rightarrow> byte option" where
  "at_val xs None = None"
| "at_val xs (Some j) = at xs j"

definition num_of :: "byte option \<Rightarrow> jsnum" where
  "num_of v = map_option uint v"

definition js_incr :: "jsnum \<Rightarrow> jsnum" where
  "js_incr v = map_option (\<lambda>j. j + 1) v"

definition js_decr :: "jsnum \<Rightarrow> jsnum" where
  "js_decr v = map_option (\<lambda>j. j - 1) v"

text \<open>Storing a number into a \<^verbatim>\<open>Uint8Array\<close> keeps it modulo 256; NaN is stored as 0.\<close>

definition to_uint8 :: "jsnum \<Rightarrow> byte" where
  "to_uint8 v = (case v of None \<Rightarrow> 0 | Some j \<Rightarrow> word_of_int j)"

text \<open>
  \<^verbatim>\<open>subarray(begin, end)\<close> and \<^verbatim>\<open>slice(begin, end)\<close>: a negative index counts
  from the end, and both are clamped into the array.
\<close>

definition rel_index :: "nat \<Rightarrow> int \<Rightarrow> nat" where
  "rel_index len j = (if j < 0 then nat (max (int len + j) 0) else min (nat j) len)"

definition subarray :: "bytes \<Rightarrow> int \<Rightarrow> int \<Rightarrow> bytes" where
  "subarray xs begin end' =
     (let b = rel_index (length xs) begin; e = rel_index (length xs) end'
      in take (e - b) (drop b xs))"

text \<open>
  \<^verbatim>\<open>createLPS(pat)\<close>.  The loop compares with loose equality, which on a byte and
  \<^verbatim>\<open>undefined\<close> is false; the fallback assignment reads \<^verbatim>\<open>pat[prefixEnd - 1]\<close>.
  The loop may run forever, so the result is an option.
\<close>

partial_function (option) createLPS_loop ::
  "bytes \<Rightarrow> bytes \<Rightarrow> jsnum \<Rightarrow> nat \<Rightarrow> bytes option" where
  "createLPS_loop pat lps prefixEnd i =
     (if i < length lps then
        (if at pat (int i) = at_val pat prefixEnd then
           createLPS_loop pat (lps[i := to_uint8 (js_incr prefixEnd)]) (js_incr prefixEnd) (i + 1)
         else if prefixEnd = Some 0 then
           createLPS_loop pat (lps[i := 0]) prefixEnd (i + 1)
         else
           createLPS_loop pat lps (num_of (at_val pat (js_decr prefixEnd))) i)
      else Some lps)"

declare createLPS_loop.simps [code]

definition createLPS :: "bytes \<Rightarrow> bytes option" where
  "createLPS pat = createLPS_loop pat ((replicate (length pat) 0)[0 := 0]) (Some 0) 1"

text \<open>
  The table the documentation of \<^verbatim>\<open>createLPS\<close> asks for: entry \<open>i\<close> is the length
  of the longest proper prefix of \<open>pat\<close> that is also a suffix of \<open>pat[0..i]\<close>.
\<close>

definition is_border :: "bytes \<Rightarrow> nat \<Rightarrow> nat \<Rightarrow> bool" where
  "is_border pat i k \<longleftrightarrow> k \<le> i \<and> take k pat = drop (i + 1 - k) (take (i + 1) pat)"

definition longest_border :: "bytes \<Rightarrow> nat \<Rightarrow> nat" where
  "longest_border pat i = last (filter (is_border pat i) [0 ..< i + 1])"

definition lps_table :: "bytes \<Rightarrow> bytes" where
  "lps_table pat = map (\<lambda>i. of_nat (longest_border pat i)) [0 ..< length pat]"

text \<open>
  A read of the source, as \<^verbatim>\<open>readDelim\<close> sees it: the bytes found in the scratch
  array up to the count returned, or a negative count.  When the list of reads is
  used up the source signals end-of-stream (\<^verbatim>\<open>null\<close>).
\<close>

datatype read_result = Bytes bytes | Negative

text \<open>
  Modelled from the spec: the class \<^verbatim>\<open>Buffer\<close> of io/buffer.ts and \<^verbatim>\<open>writeAll\<close> of
  io/util.ts are not among the sources.  The spec's pending accumulation buffer is a
  growable byte buffer to which each chunk read is appended and whose \<^verbatim>\<open>bytes()\<close>
  are its whole contents.
\<close>

definition Buffer_writeAll :: "bytes \<Rightarrow> bytes \<Rightarrow> bytes" where
  "Buffer_writeAll inputBuffer sliceRead = inputBuffer @ sliceRead"

text \<open>
  The inner loop of \<^verbatim>\<open>readDelim\<close>: the scan of \<open>sliceToProcess\<close> from
  \<open>inspectIndex\<close> on.  It returns the chunks yielded, in order, and the slice and the
  two indices it ends with.
\<close>

partial_function (option) readDelim_scan ::
  "bytes \<Rightarrow> bytes \<Rightarrow> bytes \<Rightarrow> nat \<Rightarrow> jsnum \<Rightarrow> (bytes list \<times> bytes \<times> nat \<times> jsnum) option" where
  "readDelim_scan delim delimLPS sliceToProcess inspectIndex matchIndex =
     (if inspectIndex < length sliceToProcess then
        (if at sliceToProcess (int inspectIndex) = at_val delim matchIndex then
           (if js_incr matchIndex = Some (int (length delim)) then
              (let matchEnd = int (inspectIndex + 1) - int (length delim);
                   readyBytes = subarray sliceToProcess 0 matchEnd;
                   pendingBytes = subarray sliceToProcess (int (inspectIndex + 1))
                                    (int (length sliceToProcess))
               in Option.bind (readDelim_scan delim delimLPS pendingBytes 0 (Some 0))
                    (\<lambda>r. Some (readyBytes # fst r, snd r)))
            else readDelim_scan delim delimLPS sliceToProcess (inspectIndex + 1)
                   (js_incr matchIndex))
         else if matchIndex = Some 0 then
           readDelim_scan delim delimLPS sliceToProcess (inspectIndex + 1) matchIndex
         else
           readDelim_scan delim delimLPS sliceToProcess inspectIndex
             (num_of (at_val delimLPS (js_decr matchIndex))))
      else Some ([], sliceToProcess, inspectIndex, matchIndex))"

declare readDelim_scan.simps [code]

text \<open>
  The outer loop, over the reads of the source.  \<open>inspectLen\<close> is the length of the
  scratch array: a count beyond it is cut by \<^verbatim>\<open>subarray(0, result)\<close>.
\<close>

fun readDelim_loop ::
  "bytes \<Rightarrow> bytes \<Rightarrow> nat \<Rightarrow> read_result list \<Rightarrow> bytes \<Rightarrow> nat \<Rightarrow> jsnum \<Rightarrow> bytes list option" where
  "readDelim_loop delim delimLPS inspectLen [] inputBuffer inspectIndex matchIndex =
     Some [inputBuffer]"
| "readDelim_loop delim delimLPS inspectLen (Negative # reads) inputBuffer inspectIndex matchIndex =
     Some []"
| "readDelim_loop delim delimLPS inspectLen (Bytes result # reads) inputBuffer inspectIndex matchIndex =
     (let sliceRead = take inspectLen result;
          sliceToProcess = Buffer_writeAll inputBuffer sliceRead
      in Option.bind (readDelim_scan delim delimLPS sliceToProcess inspectIndex matchIndex)
           (\<lambda>(chunks, sliceToProcess', inspectIndex', matchIndex').
              Option.bind (readDelim_loop delim delimLPS inspectLen reads sliceToProcess'
                             inspectIndex' matchIndex')
                (\<lambda>rest. Some (chunks @ rest))))"

definition readDelim :: "read_result list \<Rightarrow> bytes \<Rightarrow> bytes list option" where
  "readDelim reader delim =
     Option.bind (createLPS delim)
       (\<lambda>delimLPS. readDelim_loop delim delimLPS (max 1024 (length delim + 1)) reader [] 0 (Some 0))"

text \<open>
  The states in which the scan is well behaved: the table has the delimiter's length,
  entry \<open>k\<close> is at most \<open>k\<close>, and the match index is a number below the delimiter's
  length that does not exceed the scan index.
\<close>

definition scan_inv :: "bytes \<Rightarrow> bytes \<Rightarrow> nat \<Rightarrow> jsnum \<Rightarrow> bool" where
  "scan_inv delim delimLPS inspectIndex matchIndex \<longleftrightarrow>
     length delimLPS = length delim
     \<and> (\<forall>k < length delimLPS. unat (delimLPS ! k) \<le> k)
     \<and> (\<exists>m. matchIndex = Some (int m) \<and> m \<le> inspectIndex \<and> m < length delim)"

text \<open>
  The delimiter occurs in \<open>s\<close> at position \<open>p\<close>; and the first position at which it
  occurs, if there is one.
\<close>

definition occurs_at :: "bytes \<Rightarrow> bytes \<Rightarrow> nat \<Rightarrow> bool" where
  "occurs_at delim s p \<longleftrightarrow> take (length delim) (drop p s) = delim"

definition first_occurrence :: "bytes \<Rightarrow> bytes \<Rightarrow> nat option" where
  "first_occurrence delim s = find (occurs_at delim s) [0 ..< length s]"

text \<open>
  What the scan knows at scan index \<open>ii\<close> with match index \<open>m\<close>: the \<open>m\<close> bytes before
  \<open>ii\<close> are the first \<open>m\<close> bytes of the delimiter, and no longer beginning of the
  delimiter that ends there goes on with the byte at \<open>ii\<close>.
\<close>

definition matched :: "bytes \<Rightarrow> bytes \<Rightarrow> nat \<Rightarrow> nat \<Rightarrow> bool" where
  "matched delim s ii k \<longleftrightarrow> k \<le> ii \<and> take k delim = take k (drop (ii - k) s)"

definition kmp_inv :: "bytes \<Rightarrow> bytes \<Rightarrow> nat \<Rightarrow> nat \<Rightarrow> bool" where
  "kmp_inv delim s ii m \<longleftrightarrow>
     m < length delim \<and> matched delim s ii m
     \<and> (\<forall>k. m < k \<and> k < length delim \<and> matched delim s ii k \<longrightarrow> s ! ii \<noteq> delim ! k)"

section \<open>Buffered writers (io/bufio.ts: BufWriter, BufWriterSync)\<close>

text \<open>
  The underlying sink.  Its \<^verbatim>\<open>write(p)\<close> is any function of the sink's own state
  and the buffer handed to it, which throws or returns the number of bytes it
  accepted.  \<open>received\<close> logs the bytes accepted, \<open>calls\<close> counts the invocations.
\<close>

record 's sink =
  on_write :: "'s \<Rightarrow> bytes \<Rightarrow> (errkind + nat) \<times> 's"
  sstate :: 's
  received :: bytes
  calls :: nat

definition sink_write :: "'s sink \<Rightarrow> bytes \<Rightarrow> (errkind + nat) \<times> 's sink" where
  "sink_write w p =
     (case on_write w (sstate w) p of
        (Inl e, s') \<Rightarrow> (Inl e, w\<lparr>sstate := s', calls := calls w + 1\<rparr>)
      | (Inr n, s') \<Rightarrow>
          (Inr n, w\<lparr>sstate := s', received := received w @ take n p, calls := calls w + 1\<rparr>))"

text \<open>
  Modelled from the spec: \<^verbatim>\<open>writeAll\<close> and \<^verbatim>\<open>writeAllSync\<close> of io/util.ts are not
  among the sources.  The spec's write-all helper writes the region in one logical
  operation that may be decomposed into several underlying writes: it hands the part
  not yet accepted to the sink until all of it is accepted, and a sink error
  propagates.
\<close>

partial_function (option) writeAll_loop ::
  "'s sink \<Rightarrow> bytes \<Rightarrow> nat \<Rightarrow> ((errkind + unit) \<times> 's sink) option" where
  "writeAll_loop w arr nwritten =
     (if nwritten < length arr then
        (case sink_write w (drop nwritten arr) of
           (Inl e, w') \<Rightarrow> Some (Inl e, w')
         | (Inr n, w') \<Rightarrow> writeAll_loop w' arr (nwritten + n))
      else Some (Inr (), w))"

declare writeAll_loop.simps [code]

definition writeAll :: "'s sink \<Rightarrow> bytes \<Rightarrow> ((errkind + unit) \<times> 's sink) option" where
  "writeAll w arr = writeAll_loop w arr 0"

definition writeAllSync :: "'s sink \<Rightarrow> bytes \<Rightarrow> ((errkind + unit) \<times> 's sink) option" where
  "writeAllSync w arr = writeAll_loop w arr 0"

text \<open>
  The fields of \<^verbatim>\<open>AbstractBufBase\<close> and the \<^verbatim>\<open>writer\<close> of both subclasses.
\<close>

record 's BufWriter =
  wbuf :: bytes
  usedBufferBytes :: nat
  err :: "errkind option"
  writer :: "'s sink"

definition DEFAULT_BUF_SIZE :: int where
  "DEFAULT_BUF_SIZE = 4096"

definition new_BufWriter :: "'s sink \<Rightarrow> int \<Rightarrow> 's BufWriter" where
  "new_BufWriter writer' size' =
     (let size'' = (if size' \<le> 0 then DEFAULT_BUF_SIZE else size')
      in \<lparr>wbuf = replicate (nat size'') 0, usedBufferBytes = 0, err = None, writer = writer'\<rparr>)"

definition available :: "'s BufWriter \<Rightarrow> int" where
  "available bw = int (length (wbuf bw)) - int (usedBufferBytes bw)"

definition buffered :: "'s BufWriter \<Rightarrow> nat" where
  "buffered bw = usedBufferBytes bw"

definition reset :: "'s BufWriter \<Rightarrow> 's sink \<Rightarrow> 's BufWriter" where
  "reset bw w = bw\<lparr>err := None, usedBufferBytes := 0, writer := w\<rparr>"

text \<open>
  \<^verbatim>\<open>BufWriter.flush\<close> and \<^verbatim>\<open>BufWriter.write\<close>; the latter is \<open>BufWriter_write\<close>,
  since \<open>write\<close> is a keyword of Isabelle.
\<close>

definition flush :: "'s BufWriter \<Rightarrow> ((errkind + unit) \<times> 's BufWriter) option" where
  "flush bw =
     (case err bw of
        Some e \<Rightarrow> Some (Inl e, bw)
      | None \<Rightarrow>
          if usedBufferBytes bw = 0 then Some (Inr (), bw)
          else Option.bind (writeAll (writer bw) (take (usedBufferBytes bw) (wbuf bw)))
                 (\<lambda>res. case fst res of
                    Inl e \<Rightarrow> Some (Inl e, bw\<lparr>err := Some e, writer := snd res\<rparr>)
                  | Inr u \<Rightarrow>
                      Some (Inr (), bw\<lparr>wbuf := replicate (length (wbuf bw)) 0,
                                        usedBufferBytes := 0, writer := snd res\<rparr>)))"

partial_function (option) write_loop ::
  "'s BufWriter \<Rightarrow> bytes \<Rightarrow> nat \<Rightarrow> ((errkind + nat) \<times> 's BufWriter) option" where
  "write_loop bw data totalBytesWritten =
     (if int (length data) > available bw then
        (if buffered bw = 0 then
           (case sink_write (writer bw) data of
              (Inl e, w') \<Rightarrow> Some (Inl e, bw\<lparr>err := Some e, writer := w'\<rparr>)
            | (Inr numBytesWritten, w') \<Rightarrow>
                write_loop (bw\<lparr>writer := w'\<rparr>) (drop numBytesWritten data)
                  (totalBytesWritten + numBytesWritten))
         else
           (let c = copy data (wbuf bw) (usedBufferBytes bw);
                numBytesWritten = snd c;
                bw' = bw\<lparr>wbuf := fst c, usedBufferBytes := usedBufferBytes bw + numBytesWritten\<rparr>
            in Option.bind (flush bw')
                 (\<lambda>res. case fst res of
                    Inl e \<Rightarrow> Some (Inl e, snd res)
                  | Inr u \<Rightarrow>
                      write_loop (snd res) (drop numBytesWritten data)
                        (totalBytesWritten + numBytesWritten))))
      else
        (let c = copy data (wbuf bw) (usedBufferBytes bw);
             numBytesWritten = snd c
         in Some (Inr (totalBytesWritten + numBytesWritten),
                  bw\<lparr>wbuf := fst c, usedBufferBytes := usedBufferBytes bw + numBytesWritten\<rparr>)))"

declare write_loop.simps [code]

definition BufWriter_write :: "'s BufWriter \<Rightarrow> bytes \<Rightarrow> ((errkind + nat) \<times> 's BufWriter) option" where
  "BufWriter_write bw data =
     (case err bw of
        Some e \<Rightarrow> Some (Inl e, bw)
      | None \<Rightarrow> if length data = 0 then Some (Inr 0, bw) else write_loop bw data 0)"

text \<open>
  \<^verbatim>\<open>BufWriterSync\<close>: the same fields, \<^verbatim>\<open>reset\<close>, \<^verbatim>\<open>flush\<close> and \<^verbatim>\<open>writeSync\<close>.
\<close>

definition resetSync :: "'s BufWriter \<Rightarrow> 's sink \<Rightarrow> 's BufWriter" where
  "resetSync bw w = bw\<lparr>err := None, usedBufferBytes := 0, writer := w\<rparr>"

definition flushSync :: "'s BufWriter \<Rightarrow> ((errkind + unit) \<times> 's BufWriter) option" where
  "flushSync bw =
     (case err bw of
        Some e \<Rightarrow> Some (Inl e, bw)
      | None \<Rightarrow>
          if usedBufferBytes bw = 0 then Some (Inr (), bw)
          else Option.bind (writeAllSync (writer bw) (take (usedBufferBytes bw) (wbuf bw)))
                 (\<lambda>res. case fst res of
                    Inl e \<Rightarrow> Some (Inl e, bw\<lparr>err := Some e, writer := snd res\<rparr>)
                  | Inr u \<Rightarrow>
                      Some (Inr (), bw\<lparr>wbuf := replicate (length (wbuf bw)) 0,
                                        usedBufferBytes := 0, writer := snd res\<rparr>)))"

partial_function (option) writeSync_loop ::
  "'s BufWriter \<Rightarrow> bytes \<Rightarrow> nat \<Rightarrow> ((errkind + nat) \<times> 's BufWriter) option" where
  "writeSync_loop bw data totalBytesWritten =
     (if int (length data) > available bw then
        (if buffered bw = 0 then
           (case sink_write (writer bw) data of
              (Inl e, w') \<Rightarrow> Some (Inl e, bw\<lparr>err := Some e, writer := w'\<rparr>)
            | (Inr numBytesWritten, w') \<Rightarrow>
                writeSync_loop (bw\<lparr>writer := w'\<rparr>) (drop numBytesWritten data)
                  (totalBytesWritten + numBytesWritten))
         else
           (let c = copy data (wbuf bw) (usedBufferBytes bw);
                numBytesWritten = snd c;
                bw' = bw\<lparr>wbuf := fst c, usedBufferBytes := usedBufferBytes bw + numBytesWritten\<rparr>
            in Option.bind (flushSync bw')
                 (\<lambda>res. case fst res of
                    Inl e \<Rightarrow> Some (Inl e, snd res)
                  | Inr u \<Rightarrow>
                      writeSync_loop (snd res) (drop numBytesWritten data)
                        (totalBytesWritten + numBytesWritten))))
      else
        (let c = copy data (wbuf bw) (usedBufferBytes bw);
             numBytesWritten = snd c
         in Some (Inr (totalBytesWritten + numBytesWritten),
                  bw\<lparr>wbuf := fst c, usedBufferBytes := usedBufferBytes bw + numBytesWritten\<rparr>)))"

declare writeSync_loop.simps [code]

definition writeSync :: "'s BufWriter \<Rightarrow> bytes \<Rightarrow> ((errkind + nat) \<times> 's BufWriter) option" where
  "writeSync bw data =
     (case err bw of
        Some e \<Rightarrow> Some (Inl e, bw)
      | None \<Rightarrow> if length data = 0 then Some (Inr 0, bw) else writeSync_loop bw data 0)"

text \<open>
  A caller that performs \<^verbatim>\<open>write(b1)\<close>, ..., \<^verbatim>\<open>write(bn)\<close> in turn; the values
  returned are collected.
\<close>

fun writes :: "'s BufWriter \<Rightarrow> bytes list \<Rightarrow> ((errkind + nat) list \<times> 's BufWriter) option" where
  "writes bw [] = Some ([], bw)"
| "writes bw (b # bs) =
     Option.bind (BufWriter_write bw b)
       (\<lambda>res. Option.bind (writes (snd res) bs)
          (\<lambda>rest. Some (fst res # fst rest, snd rest)))"

text \<open>
  A sink whose \<^verbatim>\<open>write\<close> never throws and accepts at least one byte and at most the
  length of the buffer handed to it; and the writers that are in the writable state
  over such a sink, with a buffer of at least one byte.
\<close>

definition good_sink :: "'s sink \<Rightarrow> bool" where
  "good_sink w \<longleftrightarrow>
     (\<forall>s p. p \<noteq> [] \<longrightarrow> (\<exists>n s'. on_write w s p = (Inr n, s') \<and> 1 \<le> n \<and> n \<le> length p))"

definition writable :: "'s BufWriter \<Rightarrow> bool" where
  "writable bw \<longleftrightarrow>
     err bw = None \<and> 1 \<le> length (wbuf bw) \<and> usedBufferBytes bw \<le> length (wbuf bw)
     \<and> good_sink (writer bw)"

text \<open>The bytes a writer has taken charge of: those the sink received and those buffered.\<close>

definition taken :: "'s BufWriter \<Rightarrow> bytes" where
  "taken bw = received (writer bw) @ take (usedBufferBytes bw) (wbuf bw)"

section \<open>The buffered reader (io/bufio.ts: BufReader)\<close>

text \<open>
  Slices handed out by the reader are windows on its internal buffer, so buffers live
  in a store: cell \<open>a\<close> of the store holds the contents of the \<open>a\<close>-th array buffer
  allocated.  A \<^verbatim>\<open>Uint8Array\<close> is a view: a buffer, an offset and a length.  Views
  built by JavaScript always lie within their buffer; \<open>view_bytes\<close> pads with zeros
  otherwise, so that its length is the view's length in every case.
\<close>

type_synonym heap = "bytes list"

record view =
  vaddr :: nat
  voff :: nat
  vlen :: nat

definition view_bytes :: "heap \<Rightarrow> view \<Rightarrow> bytes" where
  "view_bytes h v = take (vlen v) (drop (voff v) (h ! vaddr v) @ replicate (vlen v) 0)"

definition view_store :: "heap \<Rightarrow> view \<Rightarrow> bytes \<Rightarrow> heap" where
  "view_store h v bs =
     h[vaddr v := take (voff v) (h ! vaddr v) @ take (vlen v) bs
                   @ drop (voff v + vlen v) (h ! vaddr v)]"

definition alloc :: "heap \<Rightarrow> bytes \<Rightarrow> view \<times> heap" where
  "alloc h bs = (\<lparr>vaddr = length h, voff = 0, vlen = length bs\<rparr>, h @ [bs])"

definition view_subarray :: "view \<Rightarrow> int \<Rightarrow> int \<Rightarrow> view" where
  "view_subarray v begin end' =
     (let b = rel_index (vlen v) begin; e = rel_index (vlen v) end'
      in \<lparr>vaddr = vaddr v, voff = voff v + b, vlen = e - b\<rparr>)"

definition view_at :: "heap \<Rightarrow> view \<Rightarrow> int \<Rightarrow> byte option" where
  "view_at h v i = at (view_bytes h v) i"

text \<open>\<^verbatim>\<open>v.copyWithin(target, start, end)\<close>.\<close>

definition copyWithin :: "heap \<Rightarrow> view \<Rightarrow> int \<Rightarrow> int \<Rightarrow> int \<Rightarrow> heap" where
  "copyWithin h v target start end' =
     (let len = vlen v;
          to = rel_index len target;
          from = rel_index len start;
          final = rel_index len end';
          count = min (final - from) (len - to);
          bs = view_bytes h v
      in view_store h v (take to bs @ take count (drop from bs) @ drop (to + count) bs))"

text \<open>\<^verbatim>\<open>copy(src, dst, off)\<close> of bytes/mod.ts on views of the store.\<close>

definition view_copy :: "heap \<Rightarrow> view \<Rightarrow> view \<Rightarrow> nat \<Rightarrow> heap \<times> nat" where
  "view_copy h src dst off =
     (let c = copy (view_bytes h src) (view_bytes h dst) off
      in (view_store h dst (fst c), snd c))"

text \<open>\<^verbatim>\<open>xs.indexOf(delim)\<close>: the first index whose byte is the number \<open>delim\<close>, or \<open>-1\<close>.\<close>

fun index_from :: "bytes \<Rightarrow> nat \<Rightarrow> int \<Rightarrow> int" where
  "index_from [] delim k = - 1"
| "index_from (x # xs) delim k = (if unat x = delim then k else index_from xs delim (k + 1))"

definition index_of :: "bytes \<Rightarrow> nat \<Rightarrow> int" where
  "index_of xs delim = index_from xs delim 0"

text \<open>
  An error object: its kind and its \<^verbatim>\<open>partial\<close> property (\<open>None\<close> when it is
  \<^verbatim>\<open>undefined\<close>).
\<close>

datatype jserror = JsError (ekind: errkind) (epartial: "view option")

text \<open>
  The underlying source.  Its \<^verbatim>\<open>read(p)\<close> is any function of the source's own state
  and the length of \<open>p\<close>: it signals end-of-stream, throws an error of its own
  (\<open>External\<close>), or returns a count together with the bytes it has put at the start of
  \<open>p\<close>.  It writes to no other buffer.
\<close>

datatype read_outcome = ReadEOF | ReadCount int bytes | ReadThrow nat

record 'r source =
  on_read :: "'r \<Rightarrow> nat \<Rightarrow> read_outcome \<times> 'r"
  rstate :: 'r

record 'r BufReader =
  rdr_buf :: view
  rdr_rd :: "'r source"
  rdr_r :: int
  rdr_w :: int
  rdr_eof :: bool
  mem :: heap

definition source_read :: "'r BufReader \<Rightarrow> view \<Rightarrow> (jserror + int option) \<times> 'r BufReader" where
  "source_read b p =
     (case on_read (rdr_rd b) (rstate (rdr_rd b)) (vlen p) of
        (ReadEOF, s') \<Rightarrow> (Inr None, b\<lparr>rdr_rd := (rdr_rd b)\<lparr>rstate := s'\<rparr>\<rparr>)
      | (ReadCount rr bs, s') \<Rightarrow>
          (Inr (Some rr),
           b\<lparr>rdr_rd := (rdr_rd b)\<lparr>rstate := s'\<rparr>,
             mem := view_store (mem b) p (take (vlen p) bs @ drop (length bs) (view_bytes (mem b) p))\<rparr>)
      | (ReadThrow e, s') \<Rightarrow>
          (Inl (JsError (External e) None), b\<lparr>rdr_rd := (rdr_rd b)\<lparr>rstate := s'\<rparr>\<rparr>))"

definition MIN_BUF_SIZE :: int where "MIN_BUF_SIZE = 16"
definition CR :: byte where "CR = 13"
definition LF :: byte where "LF = 10"

definition new_BufReader :: "heap \<Rightarrow> 'r source \<Rightarrow> int \<Rightarrow> 'r BufReader" where
  "new_BufReader h rd size' =
     (let size'' = (if size' < MIN_BUF_SIZE then MIN_BUF_SIZE else size');
          a = alloc h (replicate (nat size'') 0)
      in \<lparr>rdr_buf = fst a, rdr_rd = rd, rdr_r = 0, rdr_w = 0, rdr_eof = False, mem = snd a\<rparr>)"

definition byteLength :: "'r BufReader \<Rightarrow> int" where
  "byteLength b = int (vlen (rdr_buf b))"

definition reader_buffered :: "'r BufReader \<Rightarrow> int" where
  "reader_buffered b = rdr_w b - rdr_r b"

text \<open>\<^verbatim>\<open>_fill\<close>: the loop counts \<open>i\<close> down from 100.\<close>

fun fill_loop :: "'r BufReader \<Rightarrow> nat \<Rightarrow> (jserror + unit) \<times> 'r BufReader" where
  "fill_loop b 0 =
     (Inl (JsError (PlainError ''No progress after 100 read() calls'') None), b)"
| "fill_loop b (Suc i) =
     (case source_read b (view_subarray (rdr_buf b) (rdr_w b) (byteLength b)) of
        (Inl e, b') \<Rightarrow> (Inl e, b')
      | (Inr None, b') \<Rightarrow> (Inr (), b'\<lparr>rdr_eof := True\<rparr>)
      | (Inr (Some rr), b') \<Rightarrow>
          if \<not> rr \<ge> 0 then (Inl (JsError (AssertionError ''negative read'') None), b')
          else let b'' = b'\<lparr>rdr_w := rdr_w b' + rr\<rparr>
               in if rr > 0 then (Inr (), b'') else fill_loop b'' i)"

definition fill :: "'r BufReader \<Rightarrow> (jserror + unit) \<times> 'r BufReader" where
  "fill b =
     (let b1 = (if rdr_r b > 0
                then b\<lparr>mem := copyWithin (mem b) (rdr_buf b) 0 (rdr_r b) (rdr_w b),
                       rdr_w := rdr_w b - rdr_r b, rdr_r := 0\<rparr>
                else b)
      in if rdr_w b1 \<ge> byteLength b1
         then (Inl (JsError (PlainError ''bufio: tried to fill full buffer'') None), b1)
         else fill_loop b1 100)"

definition reader_reset :: "'r BufReader \<Rightarrow> 'r source \<Rightarrow> 'r BufReader" where
  "reader_reset b rd = b\<lparr>rdr_buf := rdr_buf b, rdr_rd := rd, rdr_eof := False\<rparr>"

text \<open>\<^verbatim>\<open>read(p)\<close>: a count, or \<open>None\<close> for \<^verbatim>\<open>null\<close>.\<close>

definition read_copy :: "'r BufReader \<Rightarrow> view \<Rightarrow> (jserror + int option) \<times> 'r BufReader" where
  "read_copy b p =
     (let c = view_copy (mem b) (view_subarray (rdr_buf b) (rdr_r b) (rdr_w b)) p 0;
          copied = int (snd c)
      in (Inr (Some copied), b\<lparr>mem := fst c, rdr_r := rdr_r b + copied\<rparr>))"

definition read :: "'r BufReader \<Rightarrow> view \<Rightarrow> (jserror + int option) \<times> 'r BufReader" where
  "read b p =
     (if vlen p = 0 then (Inr (Some (int (vlen p))), b)
      else if rdr_r b = rdr_w b then
        (if int (vlen p) \<ge> byteLength b then
           (case source_read b p of
              (Inl e, b') \<Rightarrow> (Inl e, b')
            | (Inr rr, b') \<Rightarrow>
                (let nread = (case rr of None \<Rightarrow> 0 | Some n \<Rightarrow> n)
                 in if \<not> nread \<ge> 0 then (Inl (JsError (AssertionError ''negative read'') None), b')
                    else (Inr rr, b')))
         else
           (case source_read (b\<lparr>rdr_r := 0, rdr_w := 0\<rparr>) (rdr_buf b) of
              (Inl e, b') \<Rightarrow> (Inl e, b')
            | (Inr rr, b') \<Rightarrow>
                (case rr of
                   None \<Rightarrow> (Inr rr, b')
                 | Some n \<Rightarrow>
                     if n = 0 then (Inr rr, b')
                     else if \<not> n \<ge> 0 then (Inl (JsError (AssertionError ''negative read'') None), b')
                     else read_copy (b'\<lparr>rdr_w := rdr_w b' + n\<rparr>) p)))
      else read_copy b p)"

text \<open>\<^verbatim>\<open>readFull(p)\<close>: \<open>p\<close> itself, or \<open>None\<close> for \<^verbatim>\<open>null\<close>.\<close>

partial_function (option) readFull_loop ::
  "'r BufReader \<Rightarrow> view \<Rightarrow> int \<Rightarrow> ((jserror + view option) \<times> 'r BufReader) option" where
  "readFull_loop b p bytesRead =
     (if bytesRead < int (vlen p) then
        (case read b (view_subarray p bytesRead (int (vlen p))) of
           (Inl e, b') \<Rightarrow>
             Some (Inl (JsError (ekind e) (Some (view_subarray p 0 bytesRead))), b')
         | (Inr None, b') \<Rightarrow>
             if bytesRead = 0 then Some (Inr None, b')
             else Some (Inl (JsError PartialRead (Some (view_subarray p 0 bytesRead))), b')
         | (Inr (Some rr), b') \<Rightarrow> readFull_loop b' p (bytesRead + rr))
      else Some (Inr (Some p), b))"

declare readFull_loop.simps [code]

definition readFull :: "'r BufReader \<Rightarrow> view \<Rightarrow> ((jserror + view option) \<times> 'r BufReader) option" where
  "readFull b p = readFull_loop b p 0"

text \<open>
  \<^verbatim>\<open>readByte()\<close>: \<open>None\<close> for \<^verbatim>\<open>null\<close>, otherwise the element read at \<open>r\<close>.
\<close>

partial_function (option) readByte ::
  "'r BufReader \<Rightarrow> ((jserror + byte option option) \<times> 'r BufReader) option" where
  "readByte b =
     (if rdr_r b = rdr_w b then
        (if rdr_eof b then Some (Inr None, b)
         else (case fill b of
                 (Inl e, b') \<Rightarrow> Some (Inl e, b')
               | (Inr u, b') \<Rightarrow> readByte b'))
      else Some (Inr (Some (view_at (mem b) (rdr_buf b) (rdr_r b))), b\<lparr>rdr_r := rdr_r b + 1\<rparr>))"

declare readByte.simps [code]

text \<open>
  \<^verbatim>\<open>readSlice(delim)\<close>.  When \<^verbatim>\<open>_fill\<close> throws, \<^verbatim>\<open>slice\<close> has not been assigned yet,
  so the error's \<^verbatim>\<open>partial\<close> becomes \<^verbatim>\<open>undefined\<close>.
\<close>

partial_function (option) readSlice_loop ::
  "'r BufReader \<Rightarrow> nat \<Rightarrow> int \<Rightarrow> ((jserror + view option) \<times> 'r BufReader) option" where
  "readSlice_loop b delim s =
     (let i = index_of (view_bytes (mem b)
                 (view_subarray (rdr_buf b) (rdr_r b + s) (rdr_w b))) delim
      in if i \<ge> 0 then
           (let i' = i + s;
                slice = view_subarray (rdr_buf b) (rdr_r b) (rdr_r b + i' + 1)
            in Some (Inr (Some slice), b\<lparr>rdr_r := rdr_r b + (i' + 1)\<rparr>))
         else if rdr_eof b then
           (if rdr_r b = rdr_w b then Some (Inr None, b)
            else Some (Inr (Some (view_subarray (rdr_buf b) (rdr_r b) (rdr_w b))),
                       b\<lparr>rdr_r := rdr_w b\<rparr>))
         else if reader_buffered b \<ge> byteLength b then
           (let oldbuf = rdr_buf b;
                newbuf = alloc (mem b) (view_bytes (mem b) (view_subarray (rdr_buf b) 0 (byteLength b)))
            in Some (Inl (JsError BufferFull (Some oldbuf)),
                     b\<lparr>rdr_r := rdr_w b, rdr_buf := fst newbuf, mem := snd newbuf\<rparr>))
         else
           (case fill b of
              (Inl e, b') \<Rightarrow> Some (Inl (JsError (ekind e) None), b')
            | (Inr u, b') \<Rightarrow> readSlice_loop b' delim (rdr_w b - rdr_r b)))"

declare readSlice_loop.simps [code]

definition readSlice :: "'r BufReader \<Rightarrow> nat \<Rightarrow> ((jserror + view option) \<times> 'r BufReader) option" where
  "readSlice b delim = readSlice_loop b delim 0"

text \<open>
  \<^verbatim>\<open>readString(delim)\<close>: \<open>delim\<close> is the list of the string's char codes; the value
  returned is the slice's bytes, which the source hands to a \<^verbatim>\<open>TextDecoder\<close>.
\<close>

definition readString :: "'r BufReader \<Rightarrow> nat list \<Rightarrow> ((jserror + bytes option) \<times> 'r BufReader) option" where
  "readString b delim =
     (if length delim \<noteq> 1
      then Some (Inl (JsError (PlainError ''Delimiter should be a single character'') None), b)
      else Option.bind (readSlice b (delim ! 0))
             (\<lambda>res. case fst res of
                Inl e \<Rightarrow> Some (Inl e, snd res)
              | Inr None \<Rightarrow> Some (Inr None, snd res)
              | Inr (Some buffer) \<Rightarrow> Some (Inr (Some (view_bytes (mem (snd res)) buffer)), snd res)))"

text \<open>\<^verbatim>\<open>readLine()\<close>: the pair of \<^verbatim>\<open>line\<close> and \<^verbatim>\<open>more\<close>, or \<open>None\<close> for \<^verbatim>\<open>null\<close>.\<close>

definition readLine_full :: "'r BufReader \<Rightarrow> jserror \<Rightarrow> (jserror + (view \<times> bool) option) \<times> 'r BufReader" where
  "readLine_full b e =
     (case epartial e of
        None \<Rightarrow>
          (Inl (JsError (AssertionError
             ''bufio: caught error from `readSlice()` without `partial` property'') None), b)
      | Some partial' \<Rightarrow>
          if ekind e \<noteq> BufferFull then (Inl e, b)
          else if \<not> rdr_eof b \<and> vlen partial' > 0
                  \<and> view_at (mem b) partial' (int (vlen partial') - 1) = Some CR
          then (if \<not> rdr_r b > 0
                then (Inl (JsError (AssertionError
                        ''bufio: tried to rewind past start of buffer'') None), b)
                else (Inr (Some (view_subarray partial' 0 (int (vlen partial') - 1), \<not> rdr_eof b)),
                      b\<lparr>rdr_r := rdr_r b - 1\<rparr>))
          else (Inr (Some (partial', \<not> rdr_eof b)), b))"

definition readLine_strip :: "heap \<Rightarrow> view \<Rightarrow> view" where
  "readLine_strip h line =
     (if view_at h line (int (vlen line) - 1) = Some LF then
        (let drop' = (if vlen line > 1 \<and> view_at h line (int (vlen line) - 2) = Some CR
                      then 2 else 1)
         in view_subarray line 0 (int (vlen line) - drop'))
      else line)"

definition readLine :: "'r BufReader \<Rightarrow> ((jserror + (view \<times> bool) option) \<times> 'r BufReader) option" where
  "readLine b =
     Option.bind (readSlice b (unat LF))
       (\<lambda>res. case fst res of
          Inl e \<Rightarrow> Some (readLine_full (snd res) e)
        | Inr None \<Rightarrow> Some (Inr None, snd res)
        | Inr (Some line) \<Rightarrow>
            if vlen line = 0 then Some (Inr (Some (line, False)), snd res)
            else Some (Inr (Some (readLine_strip (mem (snd res)) line, False)), snd res))"

text \<open>\<^verbatim>\<open>peek(n)\<close>.\<close>

partial_function (option) peek_loop ::
  "'r BufReader \<Rightarrow> int \<Rightarrow> ((jserror + view option) \<times> 'r BufReader) option" where
  "peek_loop b n =
     (let avail = rdr_w b - rdr_r b
      in if avail < n \<and> avail < byteLength b \<and> \<not> rdr_eof b then
           (case fill b of
              (Inl e, b') \<Rightarrow>
                Some (Inl (JsError (ekind e)
                        (Some (view_subarray (rdr_buf b') (rdr_r b') (rdr_w b')))), b')
            | (Inr u, b') \<Rightarrow> peek_loop b' n)
         else if avail = 0 \<and> rdr_eof b then Some (Inr None, b)
         else if avail < n \<and> rdr_eof b then
           Some (Inr (Some (view_subarray (rdr_buf b) (rdr_r b) (rdr_r b + avail))), b)
         else if avail < n then
           Some (Inl (JsError BufferFull
                   (Some (view_subarray (rdr_buf b) (rdr_r b) (rdr_w b)))), b)
         else Some (Inr (Some (view_subarray (rdr_buf b) (rdr_r b) (rdr_r b + n))), b))"

declare peek_loop.simps [code]

definition peek :: "'r BufReader \<Rightarrow> int \<Rightarrow> ((jserror + view option) \<times> 'r BufReader) option" where
  "peek b n =
     (if n < 0 then Some (Inl (JsError (PlainError ''negative count'') None), b)
      else peek_loop b n)"

text \<open>
  The cursor invariant of the reader, and the sources whose counts lie between zero
  and the length of the buffer handed to them.
\<close>

definition cursors_ok :: "'r BufReader \<Rightarrow> bool" where
  "cursors_ok b \<longleftrightarrow> 0 \<le> rdr_r b \<and> rdr_r b \<le> rdr_w b \<and> rdr_w b \<le> byteLength b"

definition counts_ok :: "'r source \<Rightarrow> bool" where
  "counts_ok rd \<longleftrightarrow>
     (\<forall>s n rr bs s'. on_read rd s n = (ReadCount rr bs, s') \<longrightarrow> 0 \<le> rr \<and> rr \<le> int n)"

text \<open>The invariant after an operation that started in \<open>b\<close>: the capacity is the same.\<close>

definition rinv :: "'r BufReader \<Rightarrow> 'r BufReader \<Rightarrow> bool" where
  "rinv b b' \<longleftrightarrow> cursors_ok b' \<and> counts_ok (rdr_rd b') \<and> byteLength b' = byteLength b"

text \<open>
  A caller that performs \<^verbatim>\<open>readLine()\<close> \<open>n\<close> times and copies what each call returns
  before the next: the bytes of the line and \<^verbatim>\<open>more\<close>, \<open>None\<close> for \<^verbatim>\<open>null\<close>, or the
  error thrown.
\<close>

fun readLine_times ::
  "'r BufReader \<Rightarrow> nat \<Rightarrow> (jserror + (bytes \<times> bool) option) list option" where
  "readLine_times b 0 = Some []"
| "readLine_times b (Suc n) =
     Option.bind (readLine b)
       (\<lambda>res. Option.bind (readLine_times (snd res) n)
          (\<lambda>rest. Some (map_sum id (map_option (\<lambda>lm. (view_bytes (mem (snd res)) (fst lm), snd lm)))
                          (fst res) # rest)))"

text \<open>
  What the documentation of \<^verbatim>\<open>readLine\<close> asks of a complete line: the text returned
  does not include the line end, \<^verbatim>\<open>\\n\<close> or \<^verbatim>\<open>\\r\\n\<close>.
\<close>

definition strip_eol :: "bytes \<Rightarrow> bytes" where
  "strip_eol c =
     (if c \<noteq> [] \<and> last c = LF then
        (if length c > 1 \<and> c ! (length c - 2) = CR then take (length c - 2) c
         else take (length c - 1) c)
      else c)"

text \<open>
  The operations a caller may perform on a reader, the reader they leave (whether
  they return or throw), and the destination buffer the caller hands to them.
\<close>

datatype 'r reader_op =
    OpRead view
  | OpReadFull view
  | OpReadByte
  | OpReadSlice nat
  | OpReadString "nat list"
  | OpReadLine
  | OpPeek int
  | OpReset "'r source"

fun run_op :: "'r BufReader \<Rightarrow> 'r reader_op \<Rightarrow> 'r BufReader option" where
  "run_op b (OpRead p) = Some (snd (read b p))"
| "run_op b (OpReadFull p) = map_option snd (readFull b p)"
| "run_op b OpReadByte = map_option snd (readByte b)"
| "run_op b (OpReadSlice delim) = map_option snd (readSlice b delim)"
| "run_op b (OpReadString delim) = map_option snd (readString b delim)"
| "run_op b OpReadLine = map_option snd (readLine b)"
| "run_op b (OpPeek n) = map_option snd (peek b n)"
| "run_op b (OpReset rd) = Some (reader_reset b rd)"

fun run_ops :: "'r BufReader \<Rightarrow> 'r reader_op list \<Rightarrow> 'r BufReader option" where
  "run_ops b [] = Some b"
| "run_ops b (x # xs) = Option.bind (run_op b x) (\<lambda>b'. run_ops b' xs)"

fun op_dest :: "'r reader_op \<Rightarrow> view option" where
  "op_dest (OpRead p) = Some p"
| "op_dest (OpReadFull p) = Some p"
| "op_dest x = None"

text \<open>
  Buffer \<open>a\<close> is allocated and is not the reader's internal buffer; and a step from
  \<open>b\<close> to \<open>b'\<close> that leaves this so and leaves the contents of \<open>a\<close> as they were.
\<close>

definition apart :: "nat \<Rightarrow> 'r BufReader \<Rightarrow> bool" where
  "apart a b \<longleftrightarrow> vaddr (rdr_buf b) \<noteq> a \<and> a < length (mem b)"

definition keeps :: "nat \<Rightarrow> 'r BufReader \<Rightarrow> 'r BufReader \<Rightarrow> bool" where
  "keeps a b b' \<longleftrightarrow> apart a b' \<and> mem b' ! a = mem b ! a"

text \<open>
  A source that holds a sequence of bytes and hands them out in order: as long as
  bytes are left and there is room, each read delivers at least one byte, in a piece
  whose size the source chooses (\<open>pol\<close>); when none is left it signals end-of-stream.
\<close>

definition bytes_source :: "(bytes \<Rightarrow> nat \<Rightarrow> nat) \<Rightarrow> bytes \<Rightarrow> bytes source" where
  "bytes_source pol X =
     \<lparr>on_read = (\<lambda>s n. if s = [] then (ReadEOF, s)
                        else (let k = min (max 1 (pol s n)) (min n (length s))
                              in (ReadCount (int k) (take k s), drop k s))),
      rstate = X\<rparr>"

text \<open>
  The bytes a reader over such a source has still to deliver: those buffered between
  \<open>r\<close> and \<open>w\<close>, then those the source holds.
\<close>

definition pending :: "'r BufReader \<Rightarrow> bytes" where
  "pending b = view_bytes (mem b) (view_subarray (rdr_buf b) (rdr_r b) (rdr_w b))"

definition stream :: "bytes BufReader \<Rightarrow> bytes" where
  "stream b = pending b @ rstate (rdr_rd b)"

definition reader_wf :: "(bytes \<Rightarrow> nat \<Rightarrow> nat) \<Rightarrow> bytes BufReader \<Rightarrow> bool" where
  "reader_wf pol b \<longleftrightarrow>
     cursors_ok b \<and> voff (rdr_buf b) = 0 \<and> vaddr (rdr_buf b) < length (mem b)
     \<and> length (mem b ! vaddr (rdr_buf b)) = vlen (rdr_buf b)
     \<and> on_read (rdr_rd b) = on_read (bytes_source pol [])
     \<and> (rdr_eof b \<longrightarrow> rstate (rdr_rd b) = [])"

section \<open>Verification\<close>

subsection \<open>Byte utilities\<close>


lemma startsWith_loop_short:
  "i \<le> length source \<Longrightarrow> length source < length prefix \<Longrightarrow> \<not> startsWith_loop source prefix i"
proof (induction source prefix i rule: startsWith_loop.induct)
  case (1 source prefix i)
  show ?case
  proof (cases "i = length source")
    case True
    with "1.prems" show ?thesis by (subst startsWith_loop.simps) (simp add: at_def)
  next
    case False
    with "1.prems" have lt: "i < length source" by simp
    show ?thesis
    proof (cases "at source (int i) \<noteq> at prefix (int i)")
      case True
      with lt "1.prems" show ?thesis by (subst startsWith_loop.simps) simp
    next
      case False
      with "1.IH" lt "1.prems" show ?thesis by (subst startsWith_loop.simps) simp
    qed
  qed
qed

lemma endsWith_loop_short:
  "- 1 \<le> srci \<Longrightarrow> srci < sfxi \<Longrightarrow> sfxi < int (length suffix) \<Longrightarrow> srci < int (length source)
    \<Longrightarrow> \<not> endsWith_loop source suffix srci sfxi"
proof (induction source suffix srci sfxi rule: endsWith_loop.induct)
  case (1 source suffix srci sfxi)
  show ?case
  proof (cases "srci = - 1")
    case True
    with "1.prems" show ?thesis by (subst endsWith_loop.simps) (simp add: at_def)
  next
    case False
    with "1.prems" have ge: "0 \<le> srci" by simp
    show ?thesis
    proof (cases "at source srci \<noteq> at suffix sfxi")
      case True
      with ge "1.prems" show ?thesis by (subst endsWith_loop.simps) simp
    next
      case False
      with "1.IH" ge "1.prems" show ?thesis by (subst endsWith_loop.simps) simp
    qed
  qed
qed

text \<open>
  Claim C9.  When the source is shorter than the affix (which is then non-empty),
  both \<open>startsWith\<close> and \<open>endsWith\<close> return false: the index that leaves the source
  reads \<^verbatim>\<open>undefined\<close>, which differs from every byte of the affix, so the
  comparison is a mismatch and there is no false positive.
\<close>

theorem affix_longer_than_source:
  "length source < length affix \<Longrightarrow>
     \<not> startsWith source affix \<and> \<not> endsWith source affix"
  by (simp add: startsWith_def endsWith_def startsWith_loop_short endsWith_loop_short)

theorem affix_longer_than_source_witness:
  "length [1, 2 :: byte] < length [1, 2, 3 :: byte]
     \<and> \<not> startsWith [1, 2] [1, 2, 3] \<and> \<not> endsWith [2, 3] [1, 2, 3]"
  using affix_longer_than_source [of "[1, 2]" "[1, 2, 3]"]
        affix_longer_than_source [of "[2, 3]" "[1, 2, 3]"] by simp


lemma nth_concat_replicate:
  "i < length x * n \<Longrightarrow> concat (replicate n x) ! i = x ! (i mod length x)"
proof (induction n arbitrary: i)
  case 0 then show ?case by simp
next
  case (Suc n)
  show ?case
  proof (cases "i < length x")
    case True then show ?thesis by (simp add: nth_append)
  next
    case False
    with Suc.prems have "i - length x < length x * n" by simp
    from Suc.IH [OF this] False show ?thesis
      by (simp add: nth_append le_mod_geq)
  qed
qed

lemma length_concat_replicate: "length (concat (replicate n x)) = length x * n"
  by (induction n) simp_all

lemma copy_length: "length (fst (copy src dst off)) = length dst"
  by (auto simp: copy_def set_bytes_def Let_def)

lemma copy_nth:
  "off \<le> length dst \<Longrightarrow> i < length dst \<Longrightarrow>
   fst (copy src dst off) ! i =
     (if off \<le> i \<and> i < off + length src then src ! (i - off) else dst ! i)"
  by (auto simp: copy_def set_bytes_def Let_def nth_append min_def)

lemma repeat_loop_periodic:
  "0 < bp \<Longrightarrow> length x dvd bp \<Longrightarrow> length nb = length x * n \<Longrightarrow>
   (\<forall>i < min bp (length nb). nb ! i = x ! (i mod length x)) \<Longrightarrow>
   repeat_loop nb bp = Some (concat (replicate n x))"
proof (induction "length nb - bp" arbitrary: nb bp rule: less_induct)
  case less
  show ?case
  proof (cases "bp < length nb")
    case False
    with less.prems have "\<forall>i < length nb. nb ! i = concat (replicate n x) ! i"
      by (simp add: nth_concat_replicate)
    with less.prems have "nb = concat (replicate n x)"
      by (intro nth_equalityI) (simp_all add: length_concat_replicate)
    with False show ?thesis by (subst repeat_loop.simps) simp
  next
    case True
    let ?nb = "fst (copy (take bp nb) nb bp)"
    have len: "length ?nb = length x * n" using less.prems by (simp add: copy_length)
    have per: "\<forall>i < min (bp * 2) (length ?nb). ?nb ! i = x ! (i mod length x)"
    proof (intro allI impI)
      fix i assume i: "i < min (bp * 2) (length ?nb)"
      then have iN: "i < length nb" using len less.prems by simp
      show "?nb ! i = x ! (i mod length x)"
      proof (cases "i < bp")
        case True
        with iN less.prems True \<open>bp < length nb\<close> show ?thesis by (simp add: copy_nth)
      next
        case False
        then have ib: "i - bp < min bp (length nb)" using i iN by auto
        then have tk: "take bp nb ! (i - bp) = nb ! (i - bp)" by simp
        from ib less.prems have "nb ! (i - bp) = x ! ((i - bp) mod length x)" by blast
        moreover have "(i - bp) mod length x = i mod length x"
        proof -
          from less.prems(2) obtain k where k: "bp = length x * k" by (auto simp: dvd_def)
          have "i = (i - bp) + length x * k" using False k by simp
          then have "i mod length x = ((i - bp) + length x * k) mod length x" by simp
          then show ?thesis by simp
        qed
        ultimately show ?thesis using False i iN True tk by (simp add: copy_nth)
      qed
    qed
    have "repeat_loop ?nb (bp * 2) = Some (concat (replicate n x))"
      using less.prems True len per
      by (intro less.hyps) (simp_all add: copy_length)
    with True show ?thesis by (subst repeat_loop.simps) simp
  qed
qed


subsection \<open>Doubles\<close>

lemma bit_length_0 [simp]: "n \<le> 0 \<Longrightarrow> bit_length n = 0"
  by (subst bit_length.simps) simp

lemma bit_length_pos: "0 < n \<Longrightarrow> bit_length n = Suc (bit_length (n div 2))"
  by (subst bit_length.simps) simp

lemma bit_length_le: "n < 2 ^ k \<Longrightarrow> bit_length n \<le> k"
proof (induction k arbitrary: n)
  case 0
  then show ?case by simp
next
  case (Suc k)
  show ?case
  proof (cases "0 < n")
    case True
    from Suc.prems have "n div 2 < 2 ^ k" by simp
    from Suc.IH [OF this] True show ?thesis by (simp add: bit_length_pos)
  qed simp
qed

lemma bit_length_gt: "2 ^ k \<le> n \<Longrightarrow> k < bit_length n"
proof (induction k arbitrary: n)
  case 0
  then show ?case by (simp add: bit_length_pos)
next
  case (Suc k)
  then have "2 ^ k \<le> n div 2" by simp
  from Suc.IH [OF this] have "k < bit_length (n div 2)" .
  moreover have "0 < n"
  proof -
    have "(0 :: int) < 2 ^ Suc k" by simp
    with Suc.prems show ?thesis by linarith
  qed
  ultimately show ?case by (simp add: bit_length_pos)
qed

lemma bit_length_shift: "0 < a \<Longrightarrow> bit_length (a * 2 ^ k) = bit_length a + k"
proof (induction k)
  case 0
  then show ?case by simp
next
  case (Suc k)
  have "0 < a * 2 ^ Suc k" using Suc.prems by simp
  then have "bit_length (a * 2 ^ Suc k) = Suc (bit_length (a * 2 ^ Suc k div 2))"
    by (rule bit_length_pos)
  also have "a * 2 ^ Suc k div 2 = a * 2 ^ k" by simp
  finally show ?case using Suc by simp
qed

text \<open>A value of at most 53 significant bits is a double, or too large for one.\<close>

lemma round_double_exact:
  assumes "0 < den" "2 ^ (bit_length v - 53) dvd v"
  shows "round_double (v * den) den = (if v \<ge> 2 ^ 2098 then Infinity else Finite v)"
proof -
  define ulp :: int where "ulp = 2 ^ (bit_length v - 53)"
  from assms(2) obtain w where w: "v = ulp * w" by (auto simp: ulp_def dvd_def)
  have u: "0 < ulp" by (simp add: ulp_def)
  have q: "v * den div den = v" using assms(1) by simp
  have "v * den = w * (den * ulp)" by (simp add: w)
  then have lo: "v * den div (den * ulp) = w" "v * den mod (den * ulp) = 0"
    using assms(1) u by simp_all
  have pos: "0 < den * ulp" using assms(1) u by simp
  show ?thesis
    unfolding round_double_def q ulp_def [symmetric] Let_def lo
    using pos by (simp add: w mult.commute)
qed

lemma significant_shift:
  assumes "0 \<le> p" "2 ^ (bit_length p - 53) dvd p"
  shows "2 ^ (bit_length (p * 2 ^ k) - 53) dvd p * 2 ^ k"
proof (cases "p = 0")
  case True
  then show ?thesis by simp
next
  case False
  with assms have pos: "0 < p" by simp
  have bl: "bit_length (p * 2 ^ k) = bit_length p + k" by (rule bit_length_shift [OF pos])
  show ?thesis
  proof (cases "53 \<le> bit_length p")
    case True
    then have "bit_length p + k - 53 = (bit_length p - 53) + k" by simp
    then have "(2 :: int) ^ (bit_length (p * 2 ^ k) - 53) = 2 ^ (bit_length p - 53) * 2 ^ k"
      by (simp add: bl power_add)
    with assms(2) show ?thesis by (simp add: mult_dvd_mono)
  next
    case False
    then have "bit_length p + k - 53 \<le> k" by simp
    then have "(2 :: int) ^ (bit_length (p * 2 ^ k) - 53) dvd 2 ^ k"
      unfolding bl by (rule le_imp_power_dvd)
    then show ?thesis by (rule dvd_mult)
  qed
qed

lemma significant_small: "p < 2 ^ 53 \<Longrightarrow> 2 ^ (bit_length p - 53) dvd p"
  using bit_length_le [of p 53] by simp

lemma fl_mul_exact:
  assumes "0 \<le> a" "0 \<le> b" "2 ^ (bit_length (a * b) - 53) dvd a * b"
  shows "fl_mul (number a) (number b) = (if a * b \<ge> 2 ^ 1024 then Infinity else number (a * b))"
proof -
  have s: "2 ^ (bit_length (a * b * 2 ^ 1074) - 53) dvd a * b * 2 ^ 1074"
    using assms by (intro significant_shift) simp_all
  have "a * 2 ^ 1074 * (b * 2 ^ 1074) = (a * b * 2 ^ 1074) * 2 ^ 1074" by simp
  then have "fl_mul (number a) (number b) = round_double ((a * b * 2 ^ 1074) * 2 ^ 1074) (2 ^ 1074)"
    by (simp only: number_def fl_mul.simps)
  also have "\<dots> = (if a * b * 2 ^ 1074 \<ge> 2 ^ 2098 then Infinity else Finite (a * b * 2 ^ 1074))"
    by (rule round_double_exact [OF _ s]) simp
  also have "(a * b * 2 ^ 1074 \<ge> 2 ^ 2098) = (a * b \<ge> 2 ^ 1024)"
  proof -
    have "(2 :: int) ^ 2098 = 2 ^ 1024 * 2 ^ 1074" by (simp add: power_add [symmetric])
    then show ?thesis by simp
  qed
  finally show ?thesis by (simp add: number_def)
qed

lemma fl_div_exact:
  assumes "0 \<le> a" "0 < b" "a < 2 ^ 53"
  shows "fl_div (number (a * b)) (number b) = number a"
proof -
  have s: "2 ^ (bit_length (a * 2 ^ 1074) - 53) dvd a * 2 ^ 1074"
    using assms by (intro significant_shift significant_small) simp_all
  have "a * b * 2 ^ 1074 * 2 ^ 1074 = (a * 2 ^ 1074) * (b * 2 ^ 1074)" by simp
  then have "fl_div (number (a * b)) (number b) = round_double ((a * 2 ^ 1074) * (b * 2 ^ 1074)) (b * 2 ^ 1074)"
    using assms(2) by (simp only: number_def fl_div.simps) simp
  also have "\<dots> = (if a * 2 ^ 1074 \<ge> 2 ^ 2098 then Infinity else Finite (a * 2 ^ 1074))"
    by (rule round_double_exact [OF _ s]) (use assms in simp)
  finally have e: "fl_div (number (a * b)) (number b)
      = (if a * 2 ^ 1074 \<ge> 2 ^ 2098 then Infinity else Finite (a * 2 ^ 1074))" .
  have "\<not> a * 2 ^ 1074 \<ge> (2 :: int) ^ 2098"
  proof -
    have "a * 2 ^ 1074 < 2 ^ 53 * 2 ^ 1074" using assms(3) by simp
    also have "\<dots> \<le> (2 :: int) ^ 2098" by (simp add: power_add [symmetric])
    finally show ?thesis by simp
  qed
  with e show ?thesis by (simp add: number_def)
qed

lemma fl_add_exact:
  assumes "0 \<le> a" "0 \<le> b" "a + b < 2 ^ 53"
  shows "fl_add (number a) (number b) = number (a + b)"
proof -
  have s: "2 ^ (bit_length ((a + b) * 2 ^ 1074) - 53) dvd (a + b) * 2 ^ 1074"
    using assms by (intro significant_shift significant_small) simp_all
  have "fl_add (number a) (number b) = round_double (((a + b) * 2 ^ 1074) * 1) 1"
    by (simp add: number_def distrib_right)
  also have "\<dots> = (if (a + b) * 2 ^ 1074 \<ge> 2 ^ 2098 then Infinity else Finite ((a + b) * 2 ^ 1074))"
    by (rule round_double_exact [OF _ s]) simp
  finally have e: "fl_add (number a) (number b)
      = (if (a + b) * 2 ^ 1074 \<ge> 2 ^ 2098 then Infinity else Finite ((a + b) * 2 ^ 1074))" .
  have "\<not> (a + b) * 2 ^ 1074 \<ge> (2 :: int) ^ 2098"
  proof -
    have "(a + b) * 2 ^ 1074 < 2 ^ 53 * 2 ^ 1074" using assms(3) by simp
    also have "\<dots> \<le> (2 :: int) ^ 2098" by (simp add: power_add [symmetric])
    finally show ?thesis by simp
  qed
  with e show ?thesis by (simp add: number_def)
qed

lemma new_Uint8Array_number:
  "0 \<le> n \<Longrightarrow> n < 2 ^ 53 \<Longrightarrow> new_Uint8Array (number n) = Inr (replicate (nat n) 0)"
  by (simp add: new_Uint8Array_def number_def)

lemma new_Uint8Array_large:
  "2 ^ 53 \<le> n \<Longrightarrow> new_Uint8Array (number n) = Inl (RangeError ''Invalid typed array length'')"
  by (simp add: new_Uint8Array_def number_def)

lemma bit_length_lower: "0 < q \<Longrightarrow> 2 ^ (bit_length q - 1) \<le> q"
proof (induction q rule: bit_length.induct)
  case (1 n)
  show ?case
  proof (cases "n div 2 = 0")
    case True
    with "1.prems" show ?thesis by (simp add: bit_length_pos)
  next
    case False
    with "1.prems" have p: "0 < n div 2" by simp
    with "1.IH" "1.prems" have "2 ^ (bit_length (n div 2) - 1) \<le> n div 2" by simp
    moreover obtain j where j: "bit_length (n div 2) = Suc j"
      using p by (auto simp: bit_length_pos)
    ultimately have "2 * 2 ^ j \<le> n" by simp
    with "1.prems" j show ?thesis by (simp add: bit_length_pos)
  qed
qed

text \<open>Rounding does not go below a power of two that the value has reached.\<close>

lemma round_double_large:
  assumes den: "0 < den" and q: "2 ^ k \<le> num div den" and k: "53 \<le> k"
  shows "round_double num den = Infinity \<or> (\<exists>N. round_double num den = Finite N \<and> 2 ^ k \<le> N)"
proof -
  define b where "b = bit_length (num div den)"
  define ulp :: int where "ulp = 2 ^ (b - 53)"
  define lo where "lo = num div (den * ulp)"
  define m where "m = (if 2 * (num mod (den * ulp)) < den * ulp
      \<or> (2 * (num mod (den * ulp)) = den * ulp \<and> even lo) then lo else lo + 1)"
  have kb: "k < b" unfolding b_def by (rule bit_length_gt [OF q])
  have "(0 :: int) < 2 ^ k" by simp
  with q have qpos: "0 < num div den" by linarith
  have low: "2 ^ (b - 1) \<le> num div den" unfolding b_def by (rule bit_length_lower [OF qpos])
  have u: "0 < ulp" by (simp add: ulp_def)
  then have u0: "0 \<le> ulp" by simp
  have lo: "lo = num div den div ulp"
    unfolding lo_def by (rule zdiv_zmult2_eq [OF u0])
  have split: "(2 :: int) ^ (b - 1) = 2 ^ 52 * ulp"
  proof -
    have "b - 1 = 52 + (b - 53)" using kb k by simp
    then have "(2 :: int) ^ (b - 1) = 2 ^ (52 + (b - 53))" by (simp only:)
    then show ?thesis by (simp only: ulp_def power_add)
  qed
  have "2 ^ 52 * ulp div ulp \<le> num div den div ulp"
    using low u unfolding split by (intro zdiv_mono1)
  moreover have "2 ^ 52 * ulp div ulp = 2 ^ 52" using u by simp
  ultimately have lo52: "2 ^ 52 \<le> lo" by (simp only: lo)
  have "lo \<le> m" by (simp add: m_def)
  with lo52 have m52: "2 ^ 52 \<le> m" by linarith
  have ge: "2 ^ k \<le> m * ulp"
  proof -
    have "(2 :: int) ^ k \<le> 2 ^ (b - 1)" using kb by (intro power_increasing) simp_all
    also have "\<dots> = 2 ^ 52 * ulp" by (rule split)
    also have "\<dots> \<le> m * ulp" using m52 u0 by (rule mult_right_mono)
    finally show ?thesis .
  qed
  have r: "round_double num den = (if m * ulp \<ge> 2 ^ 2098 then Infinity else Finite (m * ulp))"
    unfolding round_double_def b_def [symmetric] ulp_def [symmetric] lo_def [symmetric] Let_def
      m_def [symmetric] ..
  show ?thesis
  proof (cases "m * ulp \<ge> 2 ^ 2098")
    case True
    with r have "round_double num den = Infinity" by (simp only: if_True)
    then show ?thesis ..
  next
    case False
    with r have "round_double num den = Finite (m * ulp)" by (simp only: if_False)
    with ge show ?thesis by blast
  qed
qed

subsection \<open>Repeating and concatenating\<close>

lemma repeat_nat:
  assumes small: "length x * n < 2 ^ 53"
  shows "repeat x (int n) = Some (Inr (concat (replicate n x)))"
proof (cases "n = 0")
  case True then show ?thesis by (simp add: repeat_def)
next
  case n: False
  define L where "L = int (length x)"
  have P: "L * int n < 2 ^ 53"
  proof -
    have "int (length x * n) < int (2 ^ 53)" using small by (simp only: of_nat_less_iff)
    then show ?thesis by (simp add: L_def)
  qed
  have L: "0 \<le> L" "L < 2 ^ 53"
  proof -
    show "0 \<le> L" by (simp add: L_def)
    have "L * 1 \<le> L * int n" using n by (intro mult_left_mono) (simp_all add: L_def)
    with P show "L < 2 ^ 53" by simp
  qed
  have mul: "fl_mul (number L) (number (int n)) = number (L * int n)"
  proof -
    have "2 ^ (bit_length (L * int n) - 53) dvd L * int n" by (rule significant_small [OF P])
    from fl_mul_exact [OF L(1) _ this] P show ?thesis by simp
  qed
  have dv: "fl_div (number (L * int n)) (number (int n)) = number L"
    using L n by (intro fl_div_exact) simp_all
  have al: "new_Uint8Array (number (L * int n)) = Inr (replicate (length x * n) 0)"
  proof -
    have "nat (L * int n) = length x * n" by (simp add: L_def nat_mult_distrib)
    with new_Uint8Array_number [of "L * int n"] P L show ?thesis by simp
  qed
  have loop: "repeat_loop (fst (copy x (replicate (length x * n) 0) 0)) (snd (copy x (replicate (length x * n) 0) 0))
      = Some (concat (replicate n x))"
  proof (cases "x = []")
    case True
    then show ?thesis by (simp add: copy_def set_bytes_def repeat_loop.simps)
  next
    case False
    let ?nb = "replicate (length x * n) (0 :: byte)"
    have fit: "length x \<le> length x * n" using n by (cases n) simp_all
    have c: "snd (copy x ?nb 0) = length x"
      using fit n by (simp add: copy_def Let_def)
    have "repeat_loop (fst (copy x ?nb 0)) (length x) = Some (concat (replicate n x))"
    proof (rule repeat_loop_periodic)
      show "0 < length x" using False by simp
      show "length x dvd length x" by simp
      show "length (fst (copy x ?nb 0)) = length x * n" by (simp add: copy_length)
      show "\<forall>i<min (length x) (length (fst (copy x ?nb 0))). fst (copy x ?nb 0) ! i = x ! (i mod length x)"
      proof (intro allI impI)
        fix i assume "i < min (length x) (length (fst (copy x ?nb 0)))"
        then have i: "i < length x" and "i < length ?nb" by (simp_all add: copy_length)
        then show "fst (copy x ?nb 0) ! i = x ! (i mod length x)"
          by (simp add: copy_nth)
      qed
    qed
    with c show ?thesis by simp
  qed
  show ?thesis
    unfolding repeat_def L_def [symmetric] mul dv al
    using n loop by (simp add: strict_neq_def number_def case_prod_beta)
qed

lemma repeat_large:
  assumes large: "2 ^ 53 \<le> length x * n"
  shows "\<exists>e. repeat x (int n) = Some (Inl e)"
proof -
  define L where "L = int (length x)"
  have n: "0 < int n" using large by (cases n) simp_all
  have P: "2 ^ 53 \<le> L * int n"
  proof -
    have "int (2 ^ 53) \<le> int (length x * n)" using large by (simp only: of_nat_le_iff)
    then show ?thesis by (simp add: L_def)
  qed
  have "2 ^ 1127 \<le> L * int n * 2 ^ 1074"
  proof -
    have "(2 :: int) ^ 1127 = 2 ^ 53 * 2 ^ 1074" by (simp add: power_add [symmetric])
    also have "\<dots> \<le> L * int n * 2 ^ 1074" using P by (intro mult_right_mono) simp_all
    finally show ?thesis .
  qed
  moreover have "L * 2 ^ 1074 * (int n * 2 ^ 1074) div 2 ^ 1074 = L * int n * 2 ^ 1074"
    by simp
  ultimately have q: "2 ^ 1127 \<le> L * 2 ^ 1074 * (int n * 2 ^ 1074) div 2 ^ 1074" by simp
  have m: "fl_mul (number L) (number (int n)) = round_double (L * 2 ^ 1074 * (int n * 2 ^ 1074)) (2 ^ 1074)"
    by (simp only: number_def fl_mul.simps)
  from round_double_large [OF _ q]
  have r: "fl_mul (number L) (number (int n)) = Infinity
      \<or> (\<exists>N. fl_mul (number L) (number (int n)) = Finite N \<and> 2 ^ 1127 \<le> N)"
    unfolding m by simp
  have "\<exists>e. new_Uint8Array (fl_mul (number L) (number (int n))) = Inl e"
  proof -
    from r show ?thesis
    proof
      assume "fl_mul (number L) (number (int n)) = Infinity"
      then show ?thesis by (simp add: new_Uint8Array_def)
    next
      assume "\<exists>N. fl_mul (number L) (number (int n)) = Finite N \<and> 2 ^ 1127 \<le> N"
      then obtain N where N: "fl_mul (number L) (number (int n)) = Finite N" "2 ^ 1127 \<le> N"
        by blast
      have "(2 :: int) ^ 1127 div 2 ^ 1074 \<le> N div 2 ^ 1074"
        using N(2) by (intro zdiv_mono1) simp_all
      moreover have "(2 :: int) ^ 1127 div 2 ^ 1074 = 2 ^ 53"
      proof -
        have "(2 :: int) ^ 1127 = 2 ^ 53 * 2 ^ 1074" by (simp add: power_add [symmetric])
        then show ?thesis by simp
      qed
      ultimately have "2 ^ 53 \<le> N div 2 ^ 1074" by simp
      then show ?thesis by (simp add: new_Uint8Array_def N(1))
    qed
  qed
  then obtain e where e: "new_Uint8Array (fl_mul (number L) (number (int n))) = Inl e" ..
  show ?thesis
    unfolding repeat_def L_def [symmetric] e using n by simp
qed

lemma concat_fill_append:
  "length (concat bs) \<le> length zs \<Longrightarrow>
   concat_fill (pre @ zs) (length pre) bs = pre @ concat bs @ drop (length (concat bs)) zs"
proof (induction bs arbitrary: pre zs)
  case Nil then show ?case by simp
next
  case (Cons b bs)
  have "set_bytes (pre @ zs) b (length pre) = (pre @ b) @ drop (length b) zs"
    by (simp add: set_bytes_def)
  moreover have "length (concat bs) \<le> length (drop (length b) zs)"
    using Cons.prems by simp
  ultimately show ?case
    using Cons.IH [of "drop (length b) zs" "pre @ b"] by (simp add: add.commute)
qed

lemma foldl_total_length:
  "foldl (\<lambda>l b. l + length b) k bs = k + length (concat bs)"
  by (induction bs arbitrary: k) simp_all


lemma foldl_lengths:
  "int k + int (length (concat bs)) < 2 ^ 53 \<Longrightarrow>
   foldl (\<lambda>l b. fl_add l (number (int (length b)))) (number (int k)) bs
     = number (int k + int (length (concat bs)))"
proof (induction bs arbitrary: k)
  case Nil
  then show ?case by simp
next
  case (Cons b bs)
  have "fl_add (number (int k)) (number (int (length b))) = number (int k + int (length b))"
    using Cons.prems by (intro fl_add_exact) simp_all
  moreover have "int (k + length b) + int (length (concat bs)) < 2 ^ 53"
    using Cons.prems by simp
  from Cons.IH [OF this]
  have "foldl (\<lambda>l b. fl_add l (number (int (length b)))) (number (int (k + length b))) bs
      = number (int (k + length b) + int (length (concat bs)))" .
  ultimately show ?case by (simp add: add.assoc)
qed

lemma concat_bufs_concat:
  assumes "length (concat bs) < 2 ^ 53"
  shows "concat_bufs bs = Inr (concat bs)"
proof -
  have s: "int 0 + int (length (concat bs)) < 2 ^ 53"
  proof -
    have "int (length (concat bs)) < int (2 ^ 53)" using assms by (simp only: of_nat_less_iff)
    then show ?thesis by simp
  qed
  have "foldl (\<lambda>l b. fl_add l (number (int (length b)))) (number 0) bs
      = number (int (length (concat bs)))"
    using foldl_lengths [OF s] by simp
  moreover have "new_Uint8Array (number (int (length (concat bs))))
      = Inr (replicate (length (concat bs)) 0)"
    using s by (simp add: new_Uint8Array_number)
  moreover have "concat_fill (replicate (length (concat bs)) 0) 0 bs = concat bs"
    using concat_fill_append [of bs "replicate (length (concat bs)) 0" "[]"] by simp
  ultimately show ?thesis by (simp add: concat_bufs_def)
qed


text \<open>
  Claim C8, as the code has it.  \<open>repeat x 0\<close> is the empty buffer for every \<open>x\<close>.
  For a count \<open>n\<close> with \<open>length x * n\<close> below \<open>2^53\<close> the doubling loop returns, with
  \<open>n\<close> concatenated copies of \<open>x\<close>, of length \<open>length x * n\<close>; so \<open>repeat x 3\<close> is
  \<open>x\<close> three times, which is also what \<^verbatim>\<open>concat(x, x, x)\<close> returns.  From \<open>2^53\<close> on
  \<open>repeat\<close> throws: the overflow test fails, or the allocation of the buffer does.
\<close>

theorem repeat_copies:
  "repeat x 0 = Some (Inr [])
   \<and> (length x * n < 2 ^ 53 \<longrightarrow>
        repeat x (int n) = Some (Inr (concat (replicate n x)))
        \<and> length (concat (replicate n x)) = length x * n)
   \<and> (length x * 3 < 2 ^ 53 \<longrightarrow>
        repeat x 3 = Some (Inr (x @ x @ x)) \<and> concat_bufs [x, x, x] = Inr (x @ x @ x))
   \<and> (2 ^ 53 \<le> length x * n \<longrightarrow> (\<exists>e. repeat x (int n) = Some (Inl e)))"
proof (intro conjI impI)
  show "repeat x 0 = Some (Inr [])" by (simp add: repeat_def)
  show "repeat x (int n) = Some (Inr (concat (replicate n x)))" if "length x * n < 2 ^ 53"
    using that by (rule repeat_nat)
  show "length (concat (replicate n x)) = length x * n"
    by (rule length_concat_replicate)
  show "repeat x 3 = Some (Inr (x @ x @ x))" if "length x * 3 < 2 ^ 53"
    using repeat_nat [of x 3] that by (simp add: numeral_3_eq_3)
  show "concat_bufs [x, x, x] = Inr (x @ x @ x)" if "length x * 3 < 2 ^ 53"
    using concat_bufs_concat [of "[x, x, x]"] that by simp
  show "\<exists>e. repeat x (int n) = Some (Inl e)" if "2 ^ 53 \<le> length x * n"
    using that by (rule repeat_large)
qed

theorem repeat_copies_witness:
  "length [1, 2 :: byte] * 3 < 2 ^ 53
   \<and> repeat [1, 2] 3 = Some (Inr [1, 2, 1, 2, 1, 2])
   \<and> concat_bufs [[1, 2], [1, 2], [1, 2]] = Inr [1, 2, 1, 2, 1, 2]
   \<and> (2 :: nat) ^ 53 \<le> length [1 :: byte] * 2 ^ 53
   \<and> (\<exists>e. repeat [1] (int (2 ^ 53)) = Some (Inl e))"
proof -
  have small: "length [1, 2 :: byte] * 3 < 2 ^ 53" by simp
  have large: "(2 :: nat) ^ 53 \<le> length [1 :: byte] * 2 ^ 53" by simp
  from repeat_copies [of "[1, 2]" 3] small
  have "repeat [1, 2] 3 = Some (Inr ([1, 2] @ [1, 2] @ [1, 2]))"
    and "concat_bufs [[1, 2], [1, 2], [1, 2]] = Inr ([1, 2] @ [1, 2] @ [1, 2])"
    by blast+
  moreover from repeat_copies [of "[1]" "2 ^ 53"] large
  have "\<exists>e. repeat [1] (int (2 ^ 53)) = Some (Inl e)" by blast
  ultimately show ?thesis using small large by simp
qed


text \<open>
  The claim as stated fails for large counts: one byte repeated \<open>2^53\<close> times passes
  the overflow test and is refused by the allocation, and twenty bytes repeated
  \<open>2^1020\<close> times fail the overflow test, the product being infinite.
\<close>

theorem repeat_large_count_counterexample:
  "repeat [1] (2 ^ 53) = Some (Inl (RangeError ''Invalid typed array length''))
   \<and> repeat (replicate 20 0) (2 ^ 1020)
       = Some (Inl (PlainError ''bytes: repeat count causes overflow''))"
proof
  have len: "int (length [1 :: byte]) = 1" by simp
  have b: "bit_length (1 * 2 ^ 53) = bit_length 1 + 53" by (rule bit_length_shift) simp
  have "bit_length 1 = 1" by (simp add: bit_length_pos)
  with b have "(2 :: int) ^ (bit_length (1 * 2 ^ 53) - 53) dvd 1 * 2 ^ 53" by simp
  from fl_mul_exact [OF _ _ this]
  have mul: "fl_mul (number 1) (number (2 ^ 53)) = number (2 ^ 53)"
    by (simp add: power_strict_increasing_iff)
  have dv: "fl_div (number (2 ^ 53)) (number (2 ^ 53)) = number 1"
    using fl_div_exact [of 1 "2 ^ 53"] by simp
  have al: "new_Uint8Array (number (2 ^ 53)) = Inl (RangeError ''Invalid typed array length'')"
    by (rule new_Uint8Array_large) simp
  have ne: "\<not> strict_neq (number 1) (number 1)" by (simp add: strict_neq_def number_def)
  have c: "(2 :: int) ^ 53 \<noteq> 0" "\<not> (2 :: int) ^ 53 < 0" by simp_all
  show "repeat [1] (2 ^ 53) = Some (Inl (RangeError ''Invalid typed array length''))"
    unfolding repeat_def len mul dv al using ne c by (simp only: if_False sum.case)
next
  have len: "int (length (replicate 20 (0 :: byte))) = 20" by simp
  have b: "bit_length (20 * 2 ^ 1020) = bit_length 20 + 1020" by (rule bit_length_shift) simp
  have "bit_length 20 = 5" by (simp add: bit_length_pos)
  with b have "(2 :: int) ^ (bit_length (20 * 2 ^ 1020) - 53) dvd 20 * 2 ^ 1020"
    by (simp add: dvd_mult le_imp_power_dvd)
  from fl_mul_exact [OF _ _ this]
  have m: "fl_mul (number 20) (number (2 ^ 1020))
      = (if 20 * 2 ^ 1020 \<ge> (2 :: int) ^ 1024 then Infinity else number (20 * 2 ^ 1020))" by simp
  have "(2 :: int) ^ 1024 = 16 * 2 ^ 1020" by (simp add: power_add [symmetric] flip: power4_eq_xxxx)
  then have "(2 :: int) ^ 1024 \<le> 20 * 2 ^ 1020" by simp
  with m have mul: "fl_mul (number 20) (number (2 ^ 1020)) = Infinity" by (simp only: if_True)
  have dv: "fl_div Infinity (number (2 ^ 1020)) = Infinity" by (simp add: number_def)
  have ne: "strict_neq Infinity (number 20)" by (simp add: strict_neq_def number_def)
  have c: "(2 :: int) ^ 1020 \<noteq> 0" "\<not> (2 :: int) ^ 1020 < 0" by simp_all
  show "repeat (replicate 20 0) (2 ^ 1020)
       = Some (Inl (PlainError ''bytes: repeat count causes overflow''))"
    unfolding repeat_def len mul dv using ne c by (simp only: if_False if_True)
qed

subsection \<open>The failure table\<close>


lemma at_simps [simp]:
  "at [] i = None"
  "at (x # xs) 0 = Some x"
  by (simp_all add: at_def)

lemma createLPS_loop_stuck:
  assumes "createLPS_loop pat lps prefixEnd i = Some y"
  shows "\<not> (prefixEnd = None \<and> i < length lps \<and> i < length pat)"
proof (rule createLPS_loop.raw_induct
    [where P = "\<lambda>pat lps prefixEnd i y. \<not> (prefixEnd = None \<and> i < length lps \<and> i < length pat)",
     OF _ assms])
  fix f pat lps prefixEnd i and y :: bytes
  assume IH: "\<And>pat lps prefixEnd i y. f pat lps prefixEnd i = Some y \<Longrightarrow>
           \<not> (prefixEnd = None \<and> i < length lps \<and> i < length pat)"
    and step: "(if i < length lps then
        (if at pat (int i) = at_val pat prefixEnd then
           f pat (lps[i := to_uint8 (js_incr prefixEnd)]) (js_incr prefixEnd) (i + 1)
         else if prefixEnd = Some 0 then
           f pat (lps[i := 0]) prefixEnd (i + 1)
         else
           f pat lps (num_of (at_val pat (js_decr prefixEnd))) i)
      else Some lps) = Some y"
  show "\<not> (prefixEnd = None \<and> i < length lps \<and> i < length pat)"
  proof
    assume stuck: "prefixEnd = None \<and> i < length lps \<and> i < length pat"
    then have "f pat lps None i = Some y"
      using step by (simp add: at_def js_decr_def num_of_def)
    from IH [OF this] stuck show False by simp
  qed
qed

lemma createLPS_loop_undefined:
  "i < length lps \<Longrightarrow> i < length pat \<Longrightarrow> createLPS_loop pat lps None i = None"
  using createLPS_loop_stuck [of pat lps None i] by (cases "createLPS_loop pat lps None i") auto

text \<open>
  Claim C2 asks that \<open>createLPS\<close> returns, for every non-empty pattern, the table of
  longest proper prefixes that are also suffixes.  The fallback assignment reads the
  pattern where it should read the table: on the pattern \<^verbatim>\<open>aab\<close> the index becomes 97,
  then \<^verbatim>\<open>undefined\<close>, and the loop never advances again.
\<close>

theorem createLPS_aab_diverges: "createLPS [97, 97, 98] = None"
proof -
  have "createLPS [97, 97, 98] = createLPS_loop [97, 97, 98] [0, 1, 0] None 2"
    unfolding createLPS_def
    apply (subst createLPS_loop.simps, simp add: at_def js_incr_def to_uint8_def)
    apply (subst createLPS_loop.simps, simp add: at_def js_decr_def num_of_def)
    apply (subst createLPS_loop.simps, simp add: at_def js_decr_def num_of_def numeral_2_eq_2)
    done
  then show ?thesis by (simp add: createLPS_loop_undefined)
qed

text \<open>
  Where the byte read by the fallback happens to be an index of the pattern, the loop
  returns, with a wrong entry.
\<close>

lemma createLPS_wrong_entry:
  "createLPS [2, 9, 2, 2] = Some [0, 0, 1, 3] \<and> lps_table [2, 9, 2, 2] = [0, 0, 1, 1]"
  by code_simp

subsection \<open>The scan of readDelim\<close>


lemma at_nth [simp]: "i < length xs \<Longrightarrow> at xs (int i) = Some (xs ! i)"
  by (simp add: at_def)

lemma at_beyond [simp]: "length xs \<le> i \<Longrightarrow> at xs (int i) = None"
  by (simp add: at_def)

lemma subarray_take [simp]: "n \<le> length xs \<Longrightarrow> subarray xs 0 (int n) = take n xs"
  by (simp add: subarray_def rel_index_def)

lemma subarray_drop [simp]: "n \<le> length xs \<Longrightarrow> subarray xs (int n) (int (length xs)) = drop n xs"
  by (simp add: subarray_def rel_index_def)

lemma scan_end:
  "\<not> ii < length s \<Longrightarrow> readDelim_scan d l s ii mi = Some ([], s, ii, mi)"
  by (subst readDelim_scan.simps) simp

lemma scan_skip:
  "ii < length s \<Longrightarrow> d = [] \<or> s ! ii \<noteq> d ! 0 \<Longrightarrow>
   readDelim_scan d l s ii (Some 0) = readDelim_scan d l s (ii + 1) (Some 0)"
  by (subst readDelim_scan.simps) (auto simp: at_def)

lemma scan_match:
  "ii < length s \<Longrightarrow> m < length d \<Longrightarrow> s ! ii = d ! m \<Longrightarrow> m + 1 < length d \<Longrightarrow>
   readDelim_scan d l s ii (Some (int m)) = readDelim_scan d l s (ii + 1) (Some (int (m + 1)))"
  by (subst readDelim_scan.simps) (simp add: js_incr_def add.commute)

lemma scan_match_full:
  "ii < length s \<Longrightarrow> m < length d \<Longrightarrow> s ! ii = d ! m \<Longrightarrow> m + 1 = length d \<Longrightarrow> m \<le> ii \<Longrightarrow>
   readDelim_scan d l s ii (Some (int m)) =
     Option.bind (readDelim_scan d l (drop (ii + 1) s) 0 (Some 0))
       (\<lambda>r. Some (take (ii + 1 - length d) s # fst r, snd r))"
proof -
  assume a: "ii < length s" "m < length d" "s ! ii = d ! m" "m + 1 = length d" "m \<le> ii"
  have e: "int (ii + 1) - int (length d) = int (ii + 1 - length d)" using a by simp
  have "subarray s 0 (int (ii + 1) - int (length d)) = take (ii + 1 - length d) s"
    unfolding e using a by (intro subarray_take) simp
  moreover have "subarray s (int (ii + 1)) (int (length s)) = drop (ii + 1) s"
    using a by (intro subarray_drop) simp
  moreover have "js_incr (Some (int m)) = Some (int (length d))"
    using a by (simp add: js_incr_def)
  ultimately show ?thesis using a
    by (subst readDelim_scan.simps) (simp add: Let_def)
qed

lemma scan_fallback:
  "ii < length s \<Longrightarrow> 0 < m \<Longrightarrow> m < length d \<Longrightarrow> s ! ii \<noteq> d ! m \<Longrightarrow> m - 1 < length l \<Longrightarrow>
   readDelim_scan d l s ii (Some (int m)) =
     readDelim_scan d l s ii (Some (int (unat (l ! (m - 1)))))"
proof -
  assume a: "ii < length s" "0 < m" "m < length d" "s ! ii \<noteq> d ! m" "m - 1 < length l"
  from a obtain k where k: "m = Suc k" by (cases m) auto
  have "num_of (at_val l (js_decr (Some (int m)))) = Some (int (unat (l ! k)))"
    using a k by (simp add: js_decr_def num_of_def at_def)
  moreover have "k = m - 1" using k by simp
  ultimately show ?thesis using a
    by (subst readDelim_scan.simps) simp
qed

lemma scan_inv_start: "scan_inv d l ii mi \<Longrightarrow> scan_inv d l 0 (Some 0)"
  by (auto simp: scan_inv_def intro: exI [of _ 0])

lemma bind_pair_id: "Option.bind x (\<lambda>r. Some ([] @ fst r, snd r)) = x"
  by (cases x) simp_all

lemma measure_step:
  "ii < n \<Longrightarrow> j \<le> k + m \<Longrightarrow> (n - (ii + 1)) * (k + 1) + j < (n - ii) * (k + 1) + (m :: nat)"
proof -
  assume a: "ii < n" "j \<le> k + m"
  then obtain q where q: "n - ii = Suc q" by (cases "n - ii") simp_all
  then have "n - (ii + 1) = q" by simp
  with q a show ?thesis by simp
qed

lemma scan_total:
  "scan_inv d l ii mi \<Longrightarrow> ii \<le> length s \<Longrightarrow>
   \<exists>cs s' mi'. readDelim_scan d l s ii mi = Some (cs, s', length s', mi') \<and> scan_inv d l (length s') mi'"
proof -
  assume inv: "scan_inv d l ii mi" and le: "ii \<le> length s"
  then obtain m where mi: "mi = Some (int m)" and m: "m \<le> ii" "m < length d"
    by (auto simp: scan_inv_def)
  have tab: "length l = length d" "\<And>k. k < length l \<Longrightarrow> unat (l ! k) \<le> k"
    using inv by (auto simp: scan_inv_def)
  have "m \<le> ii \<Longrightarrow> m < length d \<Longrightarrow> ii \<le> length s \<Longrightarrow>
    \<exists>cs s' mi'. readDelim_scan d l s ii (Some (int m)) = Some (cs, s', length s', mi')
       \<and> scan_inv d l (length s') mi'"
  proof (induction "(length s - ii) * (length d + 1) + m" arbitrary: s ii m rule: less_induct)
    case less
    show ?case
    proof (cases "ii < length s")
      case False
      with less.prems have "ii = length s" by simp
      with less.prems tab show ?thesis
        by (auto simp: scan_end scan_inv_def)
    next
      case lt: True
      show ?thesis
      proof (cases "s ! ii = d ! m")
        case True
        show ?thesis
        proof (cases "m + 1 = length d")
          case full: True
          have ms: "(length (drop (ii + 1) s) - 0) * (length d + 1) + 0 < (length s - ii) * (length d + 1) + m"
            using measure_step [OF lt, of 0 "length d" m] by simp
          have d0: "0 < length d" using less.prems(2) by (cases d) simp_all
          from less.hyps [OF ms _ d0] obtain cs s' mi' where
            r: "readDelim_scan d l (drop (ii + 1) s) 0 (Some (int 0)) = Some (cs, s', length s', mi')"
               "scan_inv d l (length s') mi'" by auto
          show ?thesis
            by (subst scan_match_full [OF lt less.prems(2) True full less.prems(1)])
               (use r in auto)
        next
          case False
          with less.prems have m1: "m + 1 < length d" by simp
          have ms: "(length s - (ii + 1)) * (length d + 1) + (m + 1) < (length s - ii) * (length d + 1) + m"
            using measure_step [OF lt, of "m + 1" "length d" m] m1 by simp
          have "ii + 1 \<le> length s" "m + 1 \<le> ii + 1" using lt less.prems by simp_all
          from less.hyps [OF ms this(2) m1 this(1)]
          show ?thesis by (subst scan_match [OF lt less.prems(2) True m1])
        qed
      next
        case ne: False
        show ?thesis
        proof (cases "m = 0")
          case True
          have ms: "(length s - (ii + 1)) * (length d + 1) + 0 < (length s - ii) * (length d + 1) + m"
            using measure_step [OF lt, of 0 "length d" m] by simp
          have d0: "0 < length d" using less.prems(2) by (cases d) simp_all
          have "ii + 1 \<le> length s" "0 \<le> ii + 1" using lt by simp_all
          from less.hyps [OF ms this(2) d0 this(1)] have
            "\<exists>cs s' mi'. readDelim_scan d l s (ii + 1) (Some 0) = Some (cs, s', length s', mi')
               \<and> scan_inv d l (length s') mi'" by simp
          moreover have "readDelim_scan d l s ii (Some (int m)) = readDelim_scan d l s (ii + 1) (Some 0)"
            using scan_skip [OF lt, of d l] ne True by simp
          ultimately show ?thesis by (simp only:)
        next
          case False
          then have m0: "0 < m" by simp
          have k: "m - 1 < length l" using less.prems tab by simp
          have b: "unat (l ! (m - 1)) \<le> m - 1" using tab(2) [OF k] .
          have ms: "(length s - ii) * (length d + 1) + unat (l ! (m - 1)) < (length s - ii) * (length d + 1) + m"
            using b m0 by simp
          have b2: "unat (l ! (m - 1)) \<le> ii" "unat (l ! (m - 1)) < length d"
            using b less.prems by simp_all
          from less.hyps [OF ms b2 less.prems(3)]
          show ?thesis by (subst scan_fallback [OF lt m0 less.prems(2) ne k])
        qed
      qed
    qed
  qed
  with mi m le show ?thesis by simp
qed

lemma bind_bind_chunks:
  "Option.bind (Option.bind x (\<lambda>r. Option.bind (g r) (\<lambda>r'. Some (fst r @ fst r', snd r'))))
      (\<lambda>r. Some (c # fst r, snd r)) =
   Option.bind (Option.bind x (\<lambda>r. Some (c # fst r, snd r)))
      (\<lambda>r. Option.bind (g (tl (fst r), snd r)) (\<lambda>r'. Some (fst r @ fst r', snd r')))"
proof (cases x)
  case None then show ?thesis by simp
next
  case (Some r)
  then show ?thesis by (cases "g r") simp_all
qed

lemma scan_append:
  assumes tab: "length l = length d" "\<And>k. k < length l \<Longrightarrow> unat (l ! k) \<le> k"
  shows "m \<le> ii \<Longrightarrow> m < length d \<Longrightarrow> ii \<le> length s \<Longrightarrow>
    readDelim_scan d l (s @ t) ii (Some (int m)) =
      Option.bind (readDelim_scan d l s ii (Some (int m)))
        (\<lambda>r. Option.bind (readDelim_scan d l (fst (snd r) @ t) (fst (snd (snd r))) (snd (snd (snd r))))
               (\<lambda>r'. Some (fst r @ fst r', snd r')))"
proof (induction "(length s - ii) * (length d + 1) + m" arbitrary: s ii m rule: less_induct)
  case less
  show ?case
  proof (cases "ii < length s")
    case False
    then show ?thesis by (simp add: scan_end bind_pair_id [simplified])
  next
    case lt: True
    then have lt': "ii < length (s @ t)" and nth: "(s @ t) ! ii = s ! ii"
      by (simp_all add: nth_append)
    show ?thesis
    proof (cases "s ! ii = d ! m")
      case True
      then have True': "(s @ t) ! ii = d ! m" using nth by simp
      show ?thesis
      proof (cases "m + 1 = length d")
        case full: True
        have ms: "(length (drop (ii + 1) s) - 0) * (length d + 1) + 0 < (length s - ii) * (length d + 1) + m"
          using measure_step [OF lt, of 0 "length d" m] by simp
        have d0: "0 < length d" using less.prems(2) by (cases d) simp_all
        define p where "p = drop (ii + 1) s"
        define c where "c = take (ii + 1 - length d) s"
        have "readDelim_scan d l (p @ t) 0 (Some (int 0)) =
            Option.bind (readDelim_scan d l p 0 (Some (int 0)))
              (\<lambda>r. Option.bind (readDelim_scan d l (fst (snd r) @ t) (fst (snd (snd r))) (snd (snd (snd r))))
               (\<lambda>r'. Some (fst r @ fst r', snd r')))"
          unfolding p_def by (rule less.hyps [OF ms _ d0]) simp_all
        then have IH: "readDelim_scan d l (p @ t) 0 (Some 0) =
            Option.bind (readDelim_scan d l p 0 (Some 0))
              (\<lambda>r. Option.bind (readDelim_scan d l (fst (snd r) @ t) (fst (snd (snd r))) (snd (snd (snd r))))
               (\<lambda>r'. Some (fst r @ fst r', snd r')))"
          by simp
        have dr: "drop (ii + 1) (s @ t) = p @ t"
          and tk: "take (ii + 1 - length d) (s @ t) = c"
          using lt by (simp_all add: p_def c_def)
        have e1: "readDelim_scan d l (s @ t) ii (Some (int m)) =
            Option.bind (readDelim_scan d l (p @ t) 0 (Some 0)) (\<lambda>r. Some (c # fst r, snd r))"
          using scan_match_full [OF lt' less.prems(2) True' full less.prems(1), of l]
          by (simp only: dr tk)
        have e2: "readDelim_scan d l s ii (Some (int m)) =
            Option.bind (readDelim_scan d l p 0 (Some 0)) (\<lambda>r. Some (c # fst r, snd r))"
          using scan_match_full [OF lt less.prems(2) True full less.prems(1), of l]
          by (simp only: p_def c_def)
        show ?thesis
          unfolding e1 e2 IH by (subst bind_bind_chunks) simp
      next
        case False
        with less.prems have m1: "m + 1 < length d" by simp
        have ms: "(length s - (ii + 1)) * (length d + 1) + (m + 1) < (length s - ii) * (length d + 1) + m"
          using measure_step [OF lt, of "m + 1" "length d" m] m1 by simp
        have "ii + 1 \<le> length s" "m + 1 \<le> ii + 1" using lt less.prems by simp_all
        from less.hyps [OF ms this(2) m1 this(1)]
        show ?thesis
          by (subst scan_match [OF lt' less.prems(2) True' m1],
              subst scan_match [OF lt less.prems(2) True m1])
      qed
    next
      case ne: False
      then have ne': "(s @ t) ! ii \<noteq> d ! m" using nth by simp
      show ?thesis
      proof (cases "m = 0")
        case True
        have ms: "(length s - (ii + 1)) * (length d + 1) + 0 < (length s - ii) * (length d + 1) + m"
          using measure_step [OF lt, of 0 "length d" m] by simp
        have d0: "0 < length d" using less.prems(2) by (cases d) simp_all
        have "ii + 1 \<le> length s" "0 \<le> ii + 1" using lt by simp_all
        from less.hyps [OF ms this(2) d0 this(1)] have IH:
          "readDelim_scan d l (s @ t) (ii + 1) (Some 0) =
            Option.bind (readDelim_scan d l s (ii + 1) (Some 0))
              (\<lambda>r. Option.bind (readDelim_scan d l (fst (snd r) @ t) (fst (snd (snd r))) (snd (snd (snd r))))
               (\<lambda>r'. Some (fst r @ fst r', snd r')))" by simp
        have e1: "readDelim_scan d l s ii (Some (int m)) = readDelim_scan d l s (ii + 1) (Some 0)"
          using scan_skip [OF lt, of d l] ne True by simp
        have e2: "readDelim_scan d l (s @ t) ii (Some (int m)) = readDelim_scan d l (s @ t) (ii + 1) (Some 0)"
          using scan_skip [OF lt', of d l] ne' True by simp
        show ?thesis unfolding e1 e2 by (rule IH)
      next
        case False
        then have m0: "0 < m" by simp
        have k: "m - 1 < length l" using less.prems tab by simp
        have b: "unat (l ! (m - 1)) \<le> m - 1" using tab(2) [OF k] .
        have ms: "(length s - ii) * (length d + 1) + unat (l ! (m - 1)) < (length s - ii) * (length d + 1) + m"
          using b m0 by simp
        have b2: "unat (l ! (m - 1)) \<le> ii" "unat (l ! (m - 1)) < length d"
          using b less.prems by simp_all
        from less.hyps [OF ms b2 less.prems(3)]
        show ?thesis
          by (subst scan_fallback [OF lt' m0 less.prems(2) ne' k],
              subst scan_fallback [OF lt m0 less.prems(2) ne k])
      qed
    qed
  qed
qed

lemma loop_concat:
  assumes tab: "length l = length d" "\<And>k. k < length l \<Longrightarrow> unat (l ! k) \<le> k"
  shows "m \<le> length buf \<Longrightarrow> m < length d \<Longrightarrow> \<forall>f \<in> set frs. length f \<le> N \<Longrightarrow>
    readDelim_scan d l (buf @ concat frs) (length buf) (Some (int m)) = Some (cs, s', ii', mi') \<Longrightarrow>
    readDelim_loop d l N (map Bytes frs) buf (length buf) (Some (int m)) = Some (cs @ [s'])"
proof (induction frs arbitrary: buf m cs)
  case Nil
  then show ?case by (simp add: scan_end)
next
  case (Cons f rest)
  have inv: "scan_inv d l (length buf) (Some (int m))"
    using tab Cons.prems by (auto simp: scan_inv_def)
  have tk: "take N f = f" using Cons.prems by simp
  from scan_total [OF inv, of "buf @ f"] obtain c1 s1 mi1 where
    s1: "readDelim_scan d l (buf @ f) (length buf) (Some (int m)) = Some (c1, s1, length s1, mi1)"
    and inv1: "scan_inv d l (length s1) mi1" by auto
  from inv1 obtain m1 where m1: "mi1 = Some (int m1)" "m1 \<le> length s1" "m1 < length d"
    by (auto simp: scan_inv_def)
  have "readDelim_scan d l ((buf @ f) @ concat rest) (length buf) (Some (int m)) =
      Option.bind (readDelim_scan d l (s1 @ concat rest) (length s1) mi1)
        (\<lambda>r'. Some (c1 @ fst r', snd r'))"
    using scan_append [OF tab, of m "length buf" "buf @ f" "concat rest"] Cons.prems s1
    by simp
  with Cons.prems(4) m1 have
    "Option.bind (readDelim_scan d l (s1 @ concat rest) (length s1) (Some (int m1)))
        (\<lambda>r'. Some (c1 @ fst r', snd r')) = Some (cs, s', ii', mi')" by simp
  then obtain c2 where
    r: "readDelim_scan d l (s1 @ concat rest) (length s1) (Some (int m1)) = Some (c2, s', ii', mi')"
    and cs: "cs = c1 @ c2"
    by (cases "readDelim_scan d l (s1 @ concat rest) (length s1) (Some (int m1))") auto
  have "readDelim_loop d l N (map Bytes rest) s1 (length s1) (Some (int m1)) = Some (c2 @ [s'])"
    using Cons.IH [OF m1(2) m1(3) _ r] Cons.prems(3) by simp
  then show ?case
    using s1 m1 cs tk by (simp add: Buffer_writeAll_def)
qed

lemma concat_fragment_length: "f \<in> set frs \<Longrightarrow> length f \<le> length (concat frs)"
  by (induction frs) auto

text \<open>
  Claim C3.  However the source cuts the seven bytes \<^verbatim>\<open>A::B::C\<close> into reads (one read,
  one byte at a time, empty reads, a cut inside the delimiter), \<open>readDelim\<close> with the
  delimiter \<^verbatim>\<open>::\<close> yields exactly the chunks \<^verbatim>\<open>A\<close>, \<^verbatim>\<open>B\<close>, \<^verbatim>\<open>C\<close>, in this order.
\<close>

theorem readDelim_A_B_C:
  "concat frs = [65, 58, 58, 66, 58, 58, 67] \<Longrightarrow>
   readDelim (map Bytes frs) [58, 58] = Some [[65], [66], [67]]"
proof -
  assume c: "concat frs = [65, 58, 58, 66, 58, 58, 67 :: byte]"
  have lps: "createLPS [58, 58] = Some [0, 1]" by code_simp
  have scan: "readDelim_scan [58, 58] [0, 1] ([] @ concat frs) (length ([] :: bytes)) (Some (int 0))
      = Some ([[65], [66]], [67], 1, Some 0)"
    unfolding c by code_simp
  have len: "\<forall>f \<in> set frs. length f \<le> 1024"
  proof
    fix f assume "f \<in> set frs"
    from concat_fragment_length [OF this] c show "length f \<le> 1024" by simp
  qed
  have tab: "length [0, 1 :: byte] = length [58, 58 :: byte]"
    "\<And>k. k < length [0, 1 :: byte] \<Longrightarrow> unat ([0, 1 :: byte] ! k) \<le> k"
    by (auto simp: less_Suc_eq numeral_2_eq_2)
  have "readDelim_loop [58, 58] [0, 1] 1024 (map Bytes frs) [] (length ([] :: bytes)) (Some (int 0))
      = Some ([[65], [66]] @ [[67]])"
    by (rule loop_concat [OF tab _ _ len scan]) simp_all
  then show ?thesis by (simp add: readDelim_def lps)
qed

theorem readDelim_A_B_C_witness:
  "concat [[65, 58], [], [58, 66, 58, 58, 67 :: byte]] = [65, 58, 58, 66, 58, 58, 67]
   \<and> readDelim [Bytes [65, 58], Bytes [], Bytes [58, 66, 58, 58, 67]] [58, 58]
       = Some [[65], [66], [67]]"
  using readDelim_A_B_C [of "[[65, 58], [], [58, 66, 58, 58, 67]]"] by simp

subsection \<open>The last chunk of readDelim\<close>












subsection \<open>Buffered writers\<close>


lemma sink_write_good:
  assumes "good_sink w" "p \<noteq> []"
  shows "\<exists>n w'. sink_write w p = (Inr n, w') \<and> 1 \<le> n \<and> n \<le> length p
           \<and> received w' = received w @ take n p \<and> good_sink w'"
proof -
  from assms obtain n s' where h: "on_write w (sstate w) p = (Inr n, s')" "1 \<le> n" "n \<le> length p"
    unfolding good_sink_def by blast
  have "good_sink (w\<lparr>sstate := s', received := received w @ take n p, calls := calls w + 1\<rparr>)"
    using assms(1) by (simp add: good_sink_def)
  with h show ?thesis by (simp add: sink_write_def)
qed

lemma writeAll_loop_ok:
  "good_sink w \<Longrightarrow> nwritten \<le> length arr \<Longrightarrow>
   \<exists>w'. writeAll_loop w arr nwritten = Some (Inr (), w')
        \<and> received w' = received w @ drop nwritten arr \<and> good_sink w'"
proof (induction "length arr - nwritten" arbitrary: w nwritten rule: less_induct)
  case less
  show ?case
  proof (cases "nwritten < length arr")
    case False
    with less.prems show ?thesis by (subst writeAll_loop.simps) simp
  next
    case True
    then have ne: "drop nwritten arr \<noteq> []" by simp
    from sink_write_good [OF less.prems(1) ne] obtain n w1 where
      h: "sink_write w (drop nwritten arr) = (Inr n, w1)" "1 \<le> n" "n \<le> length (drop nwritten arr)"
         "received w1 = received w @ take n (drop nwritten arr)" "good_sink w1" by blast
    have "length arr - (nwritten + n) < length arr - nwritten" using h True by simp
    moreover have "nwritten + n \<le> length arr" using h(3) True by simp
    ultimately obtain w' where
      r: "writeAll_loop w1 arr (nwritten + n) = Some (Inr (), w')"
         "received w' = received w1 @ drop (nwritten + n) arr" "good_sink w'"
      using less.hyps [OF _ h(5)] by blast
    have "take n (drop nwritten arr) @ drop (nwritten + n) arr = drop nwritten arr"
      by (metis add.commute append_take_drop_id drop_drop)
    with r h True show ?thesis by (subst writeAll_loop.simps) simp
  qed
qed

lemma flush_ok:
  assumes "writable bw"
  shows "\<exists>bw'. flush bw = Some (Inr (), bw') \<and> writable bw' \<and> usedBufferBytes bw' = 0
           \<and> received (writer bw') = taken bw \<and> length (wbuf bw') = length (wbuf bw)"
proof (cases "usedBufferBytes bw = 0")
  case True
  with assms show ?thesis by (simp add: flush_def writable_def taken_def)
next
  case False
  from assms have g: "good_sink (writer bw)" by (simp add: writable_def)
  from writeAll_loop_ok [OF g, of 0 "take (usedBufferBytes bw) (wbuf bw)"] obtain w' where
    "writeAll (writer bw) (take (usedBufferBytes bw) (wbuf bw)) = Some (Inr (), w')"
    "received w' = received (writer bw) @ take (usedBufferBytes bw) (wbuf bw)" "good_sink w'"
    by (auto simp: writeAll_def)
  with assms False show ?thesis by (simp add: flush_def writable_def taken_def)
qed

lemma copy_fst:
  "off \<le> length dst \<Longrightarrow>
   fst (copy src dst off) = take off dst @ take (length dst - off) src @ drop (off + min (length src) (length dst - off)) dst"
  by (auto simp: copy_def set_bytes_def Let_def min_def)

lemma copy_snd: "off \<le> length dst \<Longrightarrow> snd (copy src dst off) = min (length src) (length dst - off)"
  by (auto simp: copy_def Let_def min_def)

lemma write_loop_ok:
  "writable bw \<Longrightarrow>
   \<exists>bw'. write_loop bw data tot = Some (Inr (tot + length data), bw') \<and> writable bw'
        \<and> taken bw' = taken bw @ data \<and> length (wbuf bw') = length (wbuf bw)"
proof (induction "2 * length data + (if usedBufferBytes bw = 0 then 0 else 1)"
        arbitrary: bw data tot rule: less_induct)
  case less
  from less.prems have w: "err bw = None" "1 \<le> length (wbuf bw)"
    "usedBufferBytes bw \<le> length (wbuf bw)" "good_sink (writer bw)"
    by (simp_all add: writable_def)
  let ?c = "copy data (wbuf bw) (usedBufferBytes bw)"
  let ?n = "min (length data) (length (wbuf bw) - usedBufferBytes bw)"
  have n: "snd ?c = ?n" using w by (simp add: copy_snd)
  have tk: "take (usedBufferBytes bw + ?n) (fst ?c) = take (usedBufferBytes bw) (wbuf bw) @ take ?n data"
    using w by (simp add: copy_fst min_def)
  have len: "length (fst ?c) = length (wbuf bw)" by (simp add: copy_length)
  show ?case
  proof (cases "int (length data) > available bw")
    case False
    then have fits: "length data \<le> length (wbuf bw) - usedBufferBytes bw"
      using w by (simp add: available_def)
    then have "?n = length data" by simp
    with False w tk len n show ?thesis
      by (subst write_loop.simps) (simp add: Let_def writable_def taken_def)
  next
    case big: True
    then have big': "length (wbuf bw) - usedBufferBytes bw < length data"
      using w by (simp add: available_def)
    show ?thesis
    proof (cases "buffered bw = 0")
      case True
      then have u0: "usedBufferBytes bw = 0" by (simp add: buffered_def)
      from big' w have ne: "data \<noteq> []" by auto
      from sink_write_good [OF w(4) ne] obtain k w1 where
        h: "sink_write (writer bw) data = (Inr k, w1)" "1 \<le> k" "k \<le> length data"
           "received w1 = received (writer bw) @ take k data" "good_sink w1" by blast
      let ?bw1 = "bw\<lparr>writer := w1\<rparr>"
      have w1: "writable ?bw1" using w h by (simp add: writable_def)
      have "2 * length (drop k data) + (if usedBufferBytes ?bw1 = 0 then 0 else 1)
            < 2 * length data + (if usedBufferBytes bw = 0 then 0 else 1)"
        using h u0 by simp
      from less.hyps [OF this w1, of "tot + k"] obtain bw' where
        r: "write_loop ?bw1 (drop k data) (tot + k) = Some (Inr (tot + k + length (drop k data)), bw')"
           "writable bw'" "taken bw' = taken ?bw1 @ drop k data" "length (wbuf bw') = length (wbuf ?bw1)"
        by blast
      have "taken ?bw1 @ drop k data = taken bw @ data"
        using h u0 by (simp add: taken_def)
      with r h big True show ?thesis
        by (subst write_loop.simps) simp
    next
      case False
      then have u: "usedBufferBytes bw \<noteq> 0" by (simp add: buffered_def)
      have nn: "?n = length (wbuf bw) - usedBufferBytes bw" using big' by simp
      let ?bw1 = "bw\<lparr>wbuf := fst ?c, usedBufferBytes := usedBufferBytes bw + snd ?c\<rparr>"
      have w1: "writable ?bw1" using w n nn len by (simp add: writable_def)
      from flush_ok [OF w1] obtain bw2 where
        f: "flush ?bw1 = Some (Inr (), bw2)" "writable bw2" "usedBufferBytes bw2 = 0"
           "received (writer bw2) = taken ?bw1" "length (wbuf bw2) = length (wbuf ?bw1)" by blast
      have "2 * length (drop (snd ?c) data) + (if usedBufferBytes bw2 = 0 then 0 else 1)
            < 2 * length data + (if usedBufferBytes bw = 0 then 0 else 1)"
        using f u by simp
      from less.hyps [OF this f(2), of "tot + snd ?c"] obtain bw' where
        r: "write_loop bw2 (drop (snd ?c) data) (tot + snd ?c)
              = Some (Inr (tot + snd ?c + length (drop (snd ?c) data)), bw')"
           "writable bw'" "taken bw' = taken bw2 @ drop (snd ?c) data"
           "length (wbuf bw') = length (wbuf bw2)"
        by blast
      have t1: "taken ?bw1 = taken bw @ take ?n data"
        using tk n by (simp add: taken_def)
      have "taken bw2 = taken ?bw1" using f by (simp add: taken_def)
      with t1 have "taken bw2 @ drop (snd ?c) data = taken bw @ data"
        using n by simp
      moreover have "tot + snd ?c + length (drop (snd ?c) data) = tot + length data"
        using n by simp
      ultimately show ?thesis using r f big False len
        by (subst write_loop.simps) (simp add: Let_def)
    qed
  qed
qed


lemma write_ok:
  assumes "writable bw"
  shows "\<exists>bw'. BufWriter_write bw data = Some (Inr (length data), bw') \<and> writable bw'
           \<and> taken bw' = taken bw @ data \<and> length (wbuf bw') = length (wbuf bw)"
proof (cases "data = []")
  case True
  with assms show ?thesis by (simp add: BufWriter_write_def writable_def)
next
  case False
  from write_loop_ok [OF assms, of data 0] False assms show ?thesis
    by (simp add: BufWriter_write_def writable_def)
qed

lemma writes_ok:
  "writable bw \<Longrightarrow>
   \<exists>bw'. writes bw bs = Some (map (\<lambda>b. Inr (length b)) bs, bw') \<and> writable bw'
        \<and> taken bw' = taken bw @ concat bs"
proof (induction bs arbitrary: bw)
  case Nil
  then show ?case by simp
next
  case (Cons b bs)
  from write_ok [OF Cons.prems, of b] obtain bw1 where
    a: "BufWriter_write bw b = Some (Inr (length b), bw1)" "writable bw1" "taken bw1 = taken bw @ b"
    by blast
  from Cons.IH [OF a(2)] obtain bw' where
    b: "writes bw1 bs = Some (map (\<lambda>b. Inr (length b)) bs, bw')" "writable bw'"
       "taken bw' = taken bw1 @ concat bs" by blast
  from a b show ?case by simp
qed

lemma new_BufWriter_writable:
  "good_sink sk \<Longrightarrow> 1 \<le> C \<Longrightarrow> writable (new_BufWriter sk C) \<and> taken (new_BufWriter sk C) = received sk"
  by (simp add: new_BufWriter_def writable_def taken_def Let_def)

text \<open>
  Claim C1.  Over a sink that accepts at least one byte and at most the buffer handed
  to it on each call, and for every capacity of at least one byte, the calls
  \<^verbatim>\<open>write(b1)\<close>, ..., \<^verbatim>\<open>write(bn)\<close> return, each with the length of its argument, the
  following \<^verbatim>\<open>flush()\<close> returns, and the sink has then received exactly the
  concatenation of the arguments, after what it had received before.
\<close>

theorem write_flush_roundtrip:
  "good_sink sk \<Longrightarrow> 1 \<le> C \<Longrightarrow>
   \<exists>bw' bw''. writes (new_BufWriter sk C) bs = Some (map (\<lambda>b. Inr (length b)) bs, bw')
      \<and> flush bw' = Some (Inr (), bw'')
      \<and> received (writer bw'') = received sk @ concat bs"
proof -
  assume g: "good_sink sk" and C: "1 \<le> C"
  from new_BufWriter_writable [OF g C] have
    w: "writable (new_BufWriter sk C)" and t: "taken (new_BufWriter sk C) = received sk" by simp_all
  from writes_ok [OF w, of bs] obtain bw' where
    a: "writes (new_BufWriter sk C) bs = Some (map (\<lambda>b. Inr (length b)) bs, bw')" "writable bw'"
       "taken bw' = taken (new_BufWriter sk C) @ concat bs" by blast
  from flush_ok [OF a(2)] obtain bw'' where
    b: "flush bw' = Some (Inr (), bw'')" "received (writer bw'') = taken bw'" by blast
  from a b t show ?thesis by auto
qed

theorem write_flush_roundtrip_witness:
  "\<exists>bw' bw''.
     writes (new_BufWriter \<lparr>on_write = (\<lambda>s p. (Inr (min 2 (length p)), s)), sstate = (),
                            received = [], calls = 0\<rparr> 3) [[1, 2], [3, 4, 5, 6, 7], [], [8]]
       = Some ([Inr 2, Inr 5, Inr 0, Inr 1], bw')
     \<and> flush bw' = Some (Inr (), bw'')
     \<and> received (writer bw'') = [1, 2, 3, 4, 5, 6, 7, 8]"
proof -
  have g: "good_sink \<lparr>on_write = (\<lambda>s p. (Inr (min 2 (length p)), s)), sstate = (),
                      received = ([] :: bytes), calls = 0\<rparr>"
    by (auto simp: good_sink_def Suc_le_eq)
  from write_flush_roundtrip [OF g, of 3 "[[1, 2], [3, 4, 5, 6, 7], [], [8]]"]
  show ?thesis by (simp del: writes.simps add: eval_nat_numeral)
qed

subsection \<open>The failed state of the writers\<close>


lemma flushSync_ok:
  assumes "writable bw"
  shows "\<exists>bw'. flushSync bw = Some (Inr (), bw') \<and> writable bw' \<and> usedBufferBytes bw' = 0
           \<and> received (writer bw') = taken bw \<and> length (wbuf bw') = length (wbuf bw)"
proof (cases "usedBufferBytes bw = 0")
  case True
  with assms show ?thesis by (simp add: flushSync_def writable_def taken_def)
next
  case False
  from assms have g: "good_sink (writer bw)" by (simp add: writable_def)
  from writeAll_loop_ok [OF g, of 0 "take (usedBufferBytes bw) (wbuf bw)"] obtain w' where
    "writeAllSync (writer bw) (take (usedBufferBytes bw) (wbuf bw)) = Some (Inr (), w')"
    "received w' = received (writer bw) @ take (usedBufferBytes bw) (wbuf bw)" "good_sink w'"
    by (auto simp: writeAllSync_def)
  with assms False show ?thesis by (simp add: flushSync_def writable_def taken_def)
qed

lemma writeSync_loop_ok:
  "writable bw \<Longrightarrow>
   \<exists>bw'. writeSync_loop bw data tot = Some (Inr (tot + length data), bw') \<and> writable bw'
        \<and> taken bw' = taken bw @ data \<and> length (wbuf bw') = length (wbuf bw)"
proof (induction "2 * length data + (if usedBufferBytes bw = 0 then 0 else 1)"
        arbitrary: bw data tot rule: less_induct)
  case less
  from less.prems have w: "err bw = None" "1 \<le> length (wbuf bw)"
    "usedBufferBytes bw \<le> length (wbuf bw)" "good_sink (writer bw)"
    by (simp_all add: writable_def)
  let ?c = "copy data (wbuf bw) (usedBufferBytes bw)"
  let ?n = "min (length data) (length (wbuf bw) - usedBufferBytes bw)"
  have n: "snd ?c = ?n" using w by (simp add: copy_snd)
  have tk: "take (usedBufferBytes bw + ?n) (fst ?c) = take (usedBufferBytes bw) (wbuf bw) @ take ?n data"
    using w by (simp add: copy_fst min_def)
  have len: "length (fst ?c) = length (wbuf bw)" by (simp add: copy_length)
  show ?case
  proof (cases "int (length data) > available bw")
    case False
    then have fits: "length data \<le> length (wbuf bw) - usedBufferBytes bw"
      using w by (simp add: available_def)
    then have "?n = length data" by simp
    with False w tk len n show ?thesis
      by (subst writeSync_loop.simps) (simp add: Let_def writable_def taken_def)
  next
    case big: True
    then have big': "length (wbuf bw) - usedBufferBytes bw < length data"
      using w by (simp add: available_def)
    show ?thesis
    proof (cases "buffered bw = 0")
      case True
      then have u0: "usedBufferBytes bw = 0" by (simp add: buffered_def)
      from big' w have ne: "data \<noteq> []" by auto
      from sink_write_good [OF w(4) ne] obtain k w1 where
        h: "sink_write (writer bw) data = (Inr k, w1)" "1 \<le> k" "k \<le> length data"
           "received w1 = received (writer bw) @ take k data" "good_sink w1" by blast
      let ?bw1 = "bw\<lparr>writer := w1\<rparr>"
      have w1: "writable ?bw1" using w h by (simp add: writable_def)
      have "2 * length (drop k data) + (if usedBufferBytes ?bw1 = 0 then 0 else 1)
            < 2 * length data + (if usedBufferBytes bw = 0 then 0 else 1)"
        using h u0 by simp
      from less.hyps [OF this w1, of "tot + k"] obtain bw' where
        r: "writeSync_loop ?bw1 (drop k data) (tot + k) = Some (Inr (tot + k + length (drop k data)), bw')"
           "writable bw'" "taken bw' = taken ?bw1 @ drop k data" "length (wbuf bw') = length (wbuf ?bw1)"
        by blast
      have "taken ?bw1 @ drop k data = taken bw @ data"
        using h u0 by (simp add: taken_def)
      with r h big True show ?thesis
        by (subst writeSync_loop.simps) simp
    next
      case False
      then have u: "usedBufferBytes bw \<noteq> 0" by (simp add: buffered_def)
      have nn: "?n = length (wbuf bw) - usedBufferBytes bw" using big' by simp
      let ?bw1 = "bw\<lparr>wbuf := fst ?c, usedBufferBytes := usedBufferBytes bw + snd ?c\<rparr>"
      have w1: "writable ?bw1" using w n nn len by (simp add: writable_def)
      from flushSync_ok [OF w1] obtain bw2 where
        f: "flushSync ?bw1 = Some (Inr (), bw2)" "writable bw2" "usedBufferBytes bw2 = 0"
           "received (writer bw2) = taken ?bw1" "length (wbuf bw2) = length (wbuf ?bw1)" by blast
      have "2 * length (drop (snd ?c) data) + (if usedBufferBytes bw2 = 0 then 0 else 1)
            < 2 * length data + (if usedBufferBytes bw = 0 then 0 else 1)"
        using f u by simp
      from less.hyps [OF this f(2), of "tot + snd ?c"] obtain bw' where
        r: "writeSync_loop bw2 (drop (snd ?c) data) (tot + snd ?c)
              = Some (Inr (tot + snd ?c + length (drop (snd ?c) data)), bw')"
           "writable bw'" "taken bw' = taken bw2 @ drop (snd ?c) data"
           "length (wbuf bw') = length (wbuf bw2)"
        by blast
      have t1: "taken ?bw1 = taken bw @ take ?n data"
        using tk n by (simp add: taken_def)
      have "taken bw2 = taken ?bw1" using f by (simp add: taken_def)
      with t1 have "taken bw2 @ drop (snd ?c) data = taken bw @ data"
        using n by simp
      moreover have "tot + snd ?c + length (drop (snd ?c) data) = tot + length data"
        using n by simp
      ultimately show ?thesis using r f big False len
        by (subst writeSync_loop.simps) (simp add: Let_def)
    qed
  qed
qed
lemma writeSync_ok:
  assumes "writable bw"
  shows "\<exists>bw'. writeSync bw data = Some (Inr (length data), bw') \<and> writable bw'
           \<and> taken bw' = taken bw @ data \<and> length (wbuf bw') = length (wbuf bw)"
proof (cases "data = []")
  case True
  with assms show ?thesis by (simp add: writeSync_def writable_def)
next
  case False
  from writeSync_loop_ok [OF assms, of data 0] False assms show ?thesis
    by (simp add: writeSync_def writable_def)
qed

lemma flush_err_stored:
  assumes "flush bw = Some (Inl e, bw')"
  shows "err bw' = Some e"
proof (cases "err bw")
  case (Some e')
  with assms show ?thesis by (simp add: flush_def)
next
  case None
  show ?thesis
  proof (cases "usedBufferBytes bw = 0")
    case True
    with None assms show ?thesis by (simp add: flush_def)
  next
    case False
    show ?thesis
    proof (cases "writeAll (writer bw) (take (usedBufferBytes bw) (wbuf bw))")
      case n: None
      with None False assms show ?thesis by (simp add: flush_def)
    next
      case (Some res)
      with None False assms show ?thesis
        by (cases "fst res") (auto simp: flush_def)
    qed
  qed
qed

lemma write_loop_err_stored:
  assumes "write_loop bw data tot = Some y"
  shows "\<forall>e bw'. y = (Inl e, bw') \<longrightarrow> err bw' = Some e"
proof (rule write_loop.raw_induct
    [where P = "\<lambda>bw data tot y. \<forall>e bw'. y = (Inl e, bw') \<longrightarrow> err bw' = Some e", OF _ assms])
  fix f :: "'a BufWriter \<Rightarrow> bytes \<Rightarrow> nat \<Rightarrow> ((errkind + nat) \<times> 'a BufWriter) option"
    and bw data tot y
  assume IH: "\<And>bw data tot y. f bw data tot = Some y \<Longrightarrow>
               \<forall>e bw'. y = (Inl e, bw') \<longrightarrow> err bw' = Some e"
  assume step: "(if int (length data) > available bw then
        (if buffered bw = 0 then
           (case sink_write (writer bw) data of
              (Inl e, w') \<Rightarrow> Some (Inl e, bw\<lparr>err := Some e, writer := w'\<rparr>)
            | (Inr numBytesWritten, w') \<Rightarrow>
                f (bw\<lparr>writer := w'\<rparr>) (drop numBytesWritten data)
                  (tot + numBytesWritten))
         else
           (let c = copy data (wbuf bw) (usedBufferBytes bw);
                numBytesWritten = snd c;
                bw' = bw\<lparr>wbuf := fst c, usedBufferBytes := usedBufferBytes bw + numBytesWritten\<rparr>
            in Option.bind (flush bw')
                 (\<lambda>res. case fst res of
                    Inl e \<Rightarrow> Some (Inl e, snd res)
                  | Inr u \<Rightarrow>
                      f (snd res) (drop numBytesWritten data)
                        (tot + numBytesWritten))))
      else
        (let c = copy data (wbuf bw) (usedBufferBytes bw);
             numBytesWritten = snd c
         in Some (Inr (tot + numBytesWritten),
                  bw\<lparr>wbuf := fst c, usedBufferBytes := usedBufferBytes bw + numBytesWritten\<rparr>))) = Some y"
  show "\<forall>e bw'. y = (Inl e, bw') \<longrightarrow> err bw' = Some e"
    using step IH
    apply (auto simp: Let_def bind_eq_Some_conv split: if_splits prod.splits sum.splits)
    apply (metis (full_types) flush_err_stored old.unit.exhaust sum.exhaust)
    done
qed

lemma write_err_stored: "BufWriter_write bw data = Some (Inl e, bw') \<Longrightarrow> err bw' = Some e"
  using write_loop_err_stored [of bw data 0 "(Inl e, bw')"]
  by (auto simp: BufWriter_write_def split: option.splits if_splits)

lemma failed_stays: "err bw = Some e \<Longrightarrow>
    BufWriter_write bw data = Some (Inl e, bw) \<and> flush bw = Some (Inl e, bw)"
  by (simp add: BufWriter_write_def flush_def)

lemma reset_writable:
  "good_sink w \<Longrightarrow> 1 \<le> length (wbuf bw) \<Longrightarrow> writable (reset bw w) \<and> taken (reset bw w) = received w"
  by (simp add: reset_def writable_def taken_def)

lemma flushSync_err_stored:
  assumes "flushSync bw = Some (Inl e, bw')"
  shows "err bw' = Some e"
proof (cases "err bw")
  case (Some e')
  with assms show ?thesis by (simp add: flushSync_def)
next
  case None
  show ?thesis
  proof (cases "usedBufferBytes bw = 0")
    case True
    with None assms show ?thesis by (simp add: flushSync_def)
  next
    case False
    show ?thesis
    proof (cases "writeAllSync (writer bw) (take (usedBufferBytes bw) (wbuf bw))")
      case n: None
      with None False assms show ?thesis by (simp add: flushSync_def)
    next
      case (Some res)
      with None False assms show ?thesis
        by (cases "fst res") (auto simp: flushSync_def)
    qed
  qed
qed

lemma writeSync_loop_err_stored:
  assumes "writeSync_loop bw data tot = Some y"
  shows "\<forall>e bw'. y = (Inl e, bw') \<longrightarrow> err bw' = Some e"
proof (rule writeSync_loop.raw_induct
    [where P = "\<lambda>bw data tot y. \<forall>e bw'. y = (Inl e, bw') \<longrightarrow> err bw' = Some e", OF _ assms])
  fix f :: "'a BufWriter \<Rightarrow> bytes \<Rightarrow> nat \<Rightarrow> ((errkind + nat) \<times> 'a BufWriter) option"
    and bw data tot y
  assume IH: "\<And>bw data tot y. f bw data tot = Some y \<Longrightarrow>
               \<forall>e bw'. y = (Inl e, bw') \<longrightarrow> err bw' = Some e"
  assume step: "(if int (length data) > available bw then
        (if buffered bw = 0 then
           (case sink_write (writer bw) data of
              (Inl e, w') \<Rightarrow> Some (Inl e, bw\<lparr>err := Some e, writer := w'\<rparr>)
            | (Inr numBytesWritten, w') \<Rightarrow>
                f (bw\<lparr>writer := w'\<rparr>) (drop numBytesWritten data)
                  (tot + numBytesWritten))
         else
           (let c = copy data (wbuf bw) (usedBufferBytes bw);
                numBytesWritten = snd c;
                bw' = bw\<lparr>wbuf := fst c, usedBufferBytes := usedBufferBytes bw + numBytesWritten\<rparr>
            in Option.bind (flushSync bw')
                 (\<lambda>res. case fst res of
                    Inl e \<Rightarrow> Some (Inl e, snd res)
                  | Inr u \<Rightarrow>
                      f (snd res) (drop numBytesWritten data)
                        (tot + numBytesWritten))))
      else
        (let c = copy data (wbuf bw) (usedBufferBytes bw);
             numBytesWritten = snd c
         in Some (Inr (tot + numBytesWritten),
                  bw\<lparr>wbuf := fst c, usedBufferBytes := usedBufferBytes bw + numBytesWritten\<rparr>))) = Some y"
  show "\<forall>e bw'. y = (Inl e, bw') \<longrightarrow> err bw' = Some e"
    using step IH
    apply (auto simp: Let_def bind_eq_Some_conv split: if_splits prod.splits sum.splits)
    apply (metis (full_types) flushSync_err_stored old.unit.exhaust sum.exhaust)
    done
qed

lemma writeSync_err_stored: "writeSync bw data = Some (Inl e, bw') \<Longrightarrow> err bw' = Some e"
  using writeSync_loop_err_stored [of bw data 0 "(Inl e, bw')"]
  by (auto simp: writeSync_def split: option.splits if_splits)

lemma failedSync_stays: "err bw = Some e \<Longrightarrow>
    writeSync bw data = Some (Inl e, bw) \<and> flushSync bw = Some (Inl e, bw)"
  by (simp add: writeSync_def flushSync_def)

lemma resetSync_writable:
  "good_sink w \<Longrightarrow> 1 \<le> length (wbuf bw) \<Longrightarrow> writable (resetSync bw w) \<and> taken (resetSync bw w) = received w"
  by (simp add: resetSync_def writable_def taken_def)

text \<open>
  Claim C4, for \<^verbatim>\<open>BufWriter\<close> and for \<^verbatim>\<open>BufWriterSync\<close>.  An error thrown by
  \<^verbatim>\<open>write\<close> or \<^verbatim>\<open>flush\<close> is stored in the writer; a writer that holds an error
  throws that same error from every \<^verbatim>\<open>write\<close> and \<^verbatim>\<open>flush\<close> and is left as it was,
  its sink included, so the sink is not invoked; \<^verbatim>\<open>reset\<close> clears the error and the
  used-byte count and binds the new sink, after which a write is accepted again.
\<close>

theorem writer_error_latched:
  "(BufWriter_write bw data = Some (Inl e, bw') \<longrightarrow> err bw' = Some e)
   \<and> (flush bw = Some (Inl e, bw') \<longrightarrow> err bw' = Some e)
   \<and> (err bw = Some e \<longrightarrow>
        BufWriter_write bw data = Some (Inl e, bw) \<and> flush bw = Some (Inl e, bw))
   \<and> err (reset bw w) = None \<and> usedBufferBytes (reset bw w) = 0 \<and> writer (reset bw w) = w
   \<and> (good_sink w \<and> 1 \<le> length (wbuf bw) \<longrightarrow>
        (\<exists>bw''. BufWriter_write (reset bw w) data = Some (Inr (length data), bw'')
                \<and> taken bw'' = received w @ data))
   \<and> (writeSync bw data = Some (Inl e, bw') \<longrightarrow> err bw' = Some e)
   \<and> (flushSync bw = Some (Inl e, bw') \<longrightarrow> err bw' = Some e)
   \<and> (err bw = Some e \<longrightarrow>
        writeSync bw data = Some (Inl e, bw) \<and> flushSync bw = Some (Inl e, bw))
   \<and> err (resetSync bw w) = None \<and> usedBufferBytes (resetSync bw w) = 0
   \<and> writer (resetSync bw w) = w
   \<and> (good_sink w \<and> 1 \<le> length (wbuf bw) \<longrightarrow>
        (\<exists>bw''. writeSync (resetSync bw w) data = Some (Inr (length data), bw'')
                \<and> taken bw'' = received w @ data))"
proof -
  have a: "\<exists>bw''. BufWriter_write (reset bw w) data = Some (Inr (length data), bw'')
                \<and> taken bw'' = received w @ data"
    if "good_sink w \<and> 1 \<le> length (wbuf bw)"
    using that reset_writable [of w bw] write_ok [of "reset bw w" data] by auto
  have b: "\<exists>bw''. writeSync (resetSync bw w) data = Some (Inr (length data), bw'')
                \<and> taken bw'' = received w @ data"
    if "good_sink w \<and> 1 \<le> length (wbuf bw)"
    using that resetSync_writable [of w bw] writeSync_ok [of "resetSync bw w" data] by auto
  show ?thesis
    using a b
    by (auto simp: reset_def resetSync_def
             dest: write_err_stored flush_err_stored writeSync_err_stored flushSync_err_stored
                   failed_stays failedSync_stays)
qed

theorem writer_error_latched_witness:
  "BufWriter_write (new_BufWriter \<lparr>on_write = (\<lambda>s p. (Inl (External 7), s)), sstate = (),
                                   received = [], calls = 0\<rparr> 2) [1, 2, 3]
     = Some (Inl (External 7),
             \<lparr>wbuf = [0, 0], usedBufferBytes = 0, err = Some (External 7),
                writer = \<lparr>on_write = (\<lambda>s p. (Inl (External 7), s)), sstate = (),
                           received = [], calls = 1\<rparr>\<rparr>)
   \<and> flush \<lparr>wbuf = [5, 0], usedBufferBytes = 1, err = None,
              writer = \<lparr>on_write = (\<lambda>s p. (Inl (External 7), s)), sstate = (),
                         received = [], calls = 0\<rparr>\<rparr>
     = Some (Inl (External 7),
             \<lparr>wbuf = [5, 0], usedBufferBytes = 1, err = Some (External 7),
                writer = \<lparr>on_write = (\<lambda>s p. (Inl (External 7), s)), sstate = (),
                           received = [], calls = 1\<rparr>\<rparr>)
   \<and> BufWriter_write \<lparr>wbuf = [5, 0], usedBufferBytes = 1, err = Some (External 7),
                writer = \<lparr>on_write = (\<lambda>s p. (Inl (External 7), s)), sstate = (),
                           received = [], calls = 1\<rparr>\<rparr> [9]
     = Some (Inl (External 7),
             \<lparr>wbuf = [5, 0], usedBufferBytes = 1, err = Some (External 7),
                writer = \<lparr>on_write = (\<lambda>s p. (Inl (External 7), s)), sstate = (),
                           received = [], calls = 1\<rparr>\<rparr>)
   \<and> (\<exists>bw''. BufWriter_write
          (reset \<lparr>wbuf = [5, 0], usedBufferBytes = 1, err = Some (External 7),
                writer = \<lparr>on_write = (\<lambda>s p. (Inl (External 7), s)), sstate = (),
                           received = [], calls = 1\<rparr>\<rparr>
             \<lparr>on_write = (\<lambda>s p. (Inr (length p), s)), sstate = (), received = [], calls = 0\<rparr>)
          [9, 8, 7]
        = Some (Inr 3, bw'') \<and> taken bw'' = [9, 8, 7])
   \<and> writeSync \<lparr>wbuf = [5, 0], usedBufferBytes = 1, err = Some (External 7),
                writer = \<lparr>on_write = (\<lambda>s p. (Inl (External 7), s)), sstate = (),
                           received = [], calls = 1\<rparr>\<rparr> [9]
     = Some (Inl (External 7),
             \<lparr>wbuf = [5, 0], usedBufferBytes = 1, err = Some (External 7),
                writer = \<lparr>on_write = (\<lambda>s p. (Inl (External 7), s)), sstate = (),
                           received = [], calls = 1\<rparr>\<rparr>)"
proof -
  let ?F = "\<lparr>on_write = (\<lambda>(s :: unit) (p :: bytes). (Inl (External 7) :: errkind + nat, s)),
             sstate = (), received = ([] :: bytes), calls = 0\<rparr>"
  let ?G = "\<lparr>on_write = (\<lambda>(s :: unit) (p :: bytes). (Inr (length p) :: errkind + nat, s)),
             sstate = (), received = ([] :: bytes), calls = 0\<rparr>"
  let ?B = "\<lparr>wbuf = [5, 0], usedBufferBytes = 1, err = Some (External 7),
                writer = ?F\<lparr>calls := 1\<rparr>\<rparr>"
  have g: "good_sink ?G" by (auto simp: good_sink_def Suc_le_eq)
  have w1: "BufWriter_write (new_BufWriter ?F 2) [1, 2, 3]
     = Some (Inl (External 7), \<lparr>wbuf = [0, 0], usedBufferBytes = 0, err = Some (External 7),
                writer = ?F\<lparr>calls := 1\<rparr>\<rparr>)"
    by (subst BufWriter_write_def, simp add: new_BufWriter_def, subst write_loop.simps)
       (simp add: available_def buffered_def sink_write_def numeral_2_eq_2)
  have f1: "flush \<lparr>wbuf = [5, 0], usedBufferBytes = 1, err = None, writer = ?F\<rparr>
     = Some (Inl (External 7), ?B)"
    by (simp add: flush_def writeAll_def, subst writeAll_loop.simps)
       (simp add: sink_write_def)
  let ?A = "\<lparr>wbuf = [0, 0], usedBufferBytes = 0, err = Some (External 7),
                writer = ?F\<lparr>calls := 1\<rparr>\<rparr>"
  note t1 = writer_error_latched [of "new_BufWriter ?F 2" "[1, 2, 3]" "External 7" ?A ?G]
  note t2 = writer_error_latched
      [of "\<lparr>wbuf = [5, 0], usedBufferBytes = 1, err = None, writer = ?F\<rparr>" "[]" "External 7" ?B ?G]
  note t3 = writer_error_latched [of ?B "[9]" "External 7" ?B ?G]
  note t4 = writer_error_latched [of ?B "[9, 8, 7]" "External 7" ?B ?G]
  have c1: "err ?A = Some (External 7)" using t1 w1 by blast
  have c2: "err ?B = Some (External 7)" using t2 f1 by blast
  have c3: "BufWriter_write ?B [9] = Some (Inl (External 7), ?B)" using t3 c2 by blast
  have c3s: "writeSync ?B [9] = Some (Inl (External 7), ?B)" using t3 c2 by blast
  have "1 \<le> length (wbuf ?B)" by simp
  with g t4 have c4: "\<exists>bw''. BufWriter_write (reset ?B ?G) [9, 8, 7] = Some (Inr (length [9, 8, 7 :: byte]), bw'')
        \<and> taken bw'' = received ?G @ [9, 8, 7]" by blast
  show ?thesis
    using w1 f1 c3 c3s c4 by (simp add: eval_nat_numeral)
qed

subsection \<open>The cursors of the buffered reader\<close>


lemma length_view_bytes [simp]: "length (view_bytes h v) = vlen v"
  by (simp add: view_bytes_def)

lemma rel_index_le [simp]: "rel_index len j \<le> len"
  by (auto simp: rel_index_def)

lemma rel_index_nat: "0 \<le> j \<Longrightarrow> j \<le> int len \<Longrightarrow> int (rel_index len j) = j"
  by (simp add: rel_index_def)

lemma view_subarray_simps [simp]:
  "vaddr (view_subarray v x y) = vaddr v"
  by (simp add: view_subarray_def Let_def)

lemma vlen_view_subarray:
  "0 \<le> x \<Longrightarrow> x \<le> y \<Longrightarrow> y \<le> int (vlen v) \<Longrightarrow> int (vlen (view_subarray v x y)) = y - x"
  by (simp add: view_subarray_def Let_def rel_index_def)

lemma source_read_frame:
  assumes "source_read b p = (res, b')"
  shows "rdr_r b' = rdr_r b \<and> rdr_w b' = rdr_w b \<and> rdr_buf b' = rdr_buf b
         \<and> rdr_eof b' = rdr_eof b \<and> on_read (rdr_rd b') = on_read (rdr_rd b)
         \<and> byteLength b' = byteLength b"
  using assms
  by (auto simp: source_read_def byteLength_def split: prod.splits read_outcome.splits)

lemma source_read_count:
  assumes "counts_ok (rdr_rd b)" "source_read b p = (Inr (Some rr), b')"
  shows "0 \<le> rr \<and> rr \<le> int (vlen p)"
proof -
  obtain o' s' where o: "on_read (rdr_rd b) (rstate (rdr_rd b)) (vlen p) = (o', s')"
    by (cases "on_read (rdr_rd b) (rstate (rdr_rd b)) (vlen p)")
  with assms(2) obtain bs where "o' = ReadCount rr bs"
    by (cases o') (auto simp: source_read_def)
  with o assms(1) show ?thesis unfolding counts_ok_def by blast
qed

lemma counts_ok_cong: "on_read rd' = on_read rd \<Longrightarrow> counts_ok rd' = counts_ok rd"
  by (simp add: counts_ok_def)


lemma fill_loop_inv:
  "cursors_ok b \<Longrightarrow> counts_ok (rdr_rd b) \<Longrightarrow> fill_loop b i = (res, b') \<Longrightarrow>
   rinv b b' \<and> rdr_r b' = rdr_r b \<and> rdr_w b \<le> rdr_w b' \<and> rdr_buf b' = rdr_buf b"
proof (induction i arbitrary: b)
  case 0
  then show ?case by (simp add: rinv_def)
next
  case (Suc i)
  let ?p = "view_subarray (rdr_buf b) (rdr_w b) (byteLength b)"
  obtain r1 b1 where sr: "source_read b ?p = (r1, b1)" by (cases "source_read b ?p")
  note fr = source_read_frame [OF sr]
  have c1: "cursors_ok b1" using fr Suc.prems(1) by (simp add: cursors_ok_def)
  have k1: "counts_ok (rdr_rd b1)" using fr Suc.prems(2) by (simp add: counts_ok_def)
  have vl: "int (vlen ?p) = byteLength b - rdr_w b"
    using Suc.prems(1) by (simp add: cursors_ok_def byteLength_def vlen_view_subarray)
  show ?case
  proof (cases r1)
    case (Inl e)
    with sr Suc.prems(3) fr c1 k1 show ?thesis by (auto simp: rinv_def)
  next
    case (Inr x)
    show ?thesis
    proof (cases x)
      case None
      with Inr sr Suc.prems(3) fr c1 k1 show ?thesis
        by (auto simp: rinv_def cursors_ok_def byteLength_def)
    next
      case (Some rr)
      from sr Inr Some have "source_read b ?p = (Inr (Some rr), b1)" by simp
      from source_read_count [OF Suc.prems(2) this] vl
      have rr: "0 \<le> rr" "rr \<le> byteLength b - rdr_w b" by simp_all
      let ?b2 = "b1\<lparr>rdr_w := rdr_w b1 + rr\<rparr>"
      have c2: "cursors_ok ?b2" using c1 rr fr by (simp add: cursors_ok_def byteLength_def)
      have k2: "counts_ok (rdr_rd ?b2)" using k1 by simp
      show ?thesis
      proof (cases "rr > 0")
        case True
        with Inr Some sr Suc.prems(3) rr c2 k2 fr show ?thesis
          by (auto simp: rinv_def byteLength_def)
      next
        case False
        with Inr Some sr Suc.prems(3) rr have "fill_loop ?b2 i = (res, b')" by simp
        from Suc.IH [OF c2 k2 this] fr rr show ?thesis
          by (auto simp: rinv_def byteLength_def)
      qed
    qed
  qed
qed

lemma fill_inv:
  assumes "cursors_ok b" "counts_ok (rdr_rd b)" "fill b = (res, b')"
  shows "rinv b b' \<and> rdr_w b - rdr_r b \<le> rdr_w b' - rdr_r b' \<and> rdr_buf b' = rdr_buf b"
proof -
  let ?b1 = "if rdr_r b > 0
                then b\<lparr>mem := copyWithin (mem b) (rdr_buf b) 0 (rdr_r b) (rdr_w b),
                       rdr_w := rdr_w b - rdr_r b, rdr_r := 0\<rparr>
                else b"
  have c1: "cursors_ok ?b1" "counts_ok (rdr_rd ?b1)" "byteLength ?b1 = byteLength b"
    "rdr_w ?b1 - rdr_r ?b1 = rdr_w b - rdr_r b" "rdr_buf ?b1 = rdr_buf b"
    using assms by (auto simp: cursors_ok_def byteLength_def)
  show ?thesis
  proof (cases "rdr_w ?b1 \<ge> byteLength ?b1")
    case True
    with assms(3) have "b' = ?b1" by (auto simp: fill_def Let_def)
    with c1 show ?thesis by (simp add: rinv_def)
  next
    case False
    with assms(3) have "fill_loop ?b1 100 = (res, b')" by (auto simp: fill_def Let_def)
    from fill_loop_inv [OF c1(1,2) this] c1 show ?thesis by (auto simp: rinv_def)
  qed
qed

lemma rinv_refl: "cursors_ok b \<Longrightarrow> counts_ok (rdr_rd b) \<Longrightarrow> rinv b b"
  by (simp add: rinv_def)

lemma rinv_trans: "rinv b b1 \<Longrightarrow> rinv b1 b2 \<Longrightarrow> rinv b b2"
  by (simp add: rinv_def)

lemma rinvD: "rinv b b' \<Longrightarrow> cursors_ok b' \<and> counts_ok (rdr_rd b')"
  by (simp add: rinv_def)

lemma source_read_inv:
  assumes "cursors_ok b" "counts_ok (rdr_rd b)" "source_read b p = (res, b')"
  shows "rinv b b'"
  using source_read_frame [OF assms(3)] assms(1,2)
  by (simp add: rinv_def cursors_ok_def counts_ok_def)

lemma read_copy_inv:
  assumes "cursors_ok b" "counts_ok (rdr_rd b)" "read_copy b p = (res, b')"
  shows "rinv b b'"
proof -
  let ?src = "view_subarray (rdr_buf b) (rdr_r b) (rdr_w b)"
  have "int (vlen ?src) = rdr_w b - rdr_r b"
    using assms(1) by (simp add: cursors_ok_def byteLength_def vlen_view_subarray)
  moreover have "snd (view_copy (mem b) ?src p 0) \<le> vlen ?src"
    by (simp add: view_copy_def Let_def copy_snd)
  ultimately show ?thesis using assms
    by (auto simp: read_copy_def Let_def rinv_def cursors_ok_def byteLength_def)
qed

lemma read_inv:
  assumes c: "cursors_ok b" and k: "counts_ok (rdr_rd b)" and rd: "read b p = (res, b')"
  shows "rinv b b'"
proof (cases "vlen p = 0")
  case True
  with assms show ?thesis by (simp add: read_def rinv_def)
next
  case p: False
  show ?thesis
  proof (cases "rdr_r b = rdr_w b")
    case False
    with p rd have "read_copy b p = (res, b')" by (simp add: read_def)
    from read_copy_inv [OF c k this] show ?thesis .
  next
    case eq: True
    show ?thesis
    proof (cases "int (vlen p) \<ge> byteLength b")
      case True
      obtain r1 b1 where sr: "source_read b p = (r1, b1)" by (cases "source_read b p")
      from source_read_inv [OF c k sr] have i1: "rinv b b1" .
      from rd p eq True sr have "b' = b1"
        by (cases r1) (auto simp: read_def Let_def split: if_splits)
      with i1 show ?thesis by simp
    next
      case False
      let ?b0 = "b\<lparr>rdr_r := 0, rdr_w := 0\<rparr>"
      have c0: "cursors_ok ?b0" "counts_ok (rdr_rd ?b0)" "byteLength ?b0 = byteLength b"
        using c k by (simp_all add: cursors_ok_def byteLength_def)
      obtain r1 b1 where sr: "source_read ?b0 (rdr_buf b) = (r1, b1)"
        by (cases "source_read ?b0 (rdr_buf b)")
      from source_read_inv [OF c0(1,2) sr] have i1: "rinv ?b0 b1" .
      note fr = source_read_frame [OF sr]
      show ?thesis
      proof (cases r1)
        case (Inl e)
        with rd p eq False sr have "b' = b1" by (simp add: read_def)
        with i1 c0 show ?thesis by (simp add: rinv_def)
      next
        case (Inr x)
        show ?thesis
        proof (cases x)
          case None
          with Inr rd p eq False sr have "b' = b1" by (simp add: read_def)
          with i1 c0 show ?thesis by (simp add: rinv_def)
        next
          case (Some n)
          from sr Inr Some have "source_read ?b0 (rdr_buf b) = (Inr (Some n), b1)" by simp
          from source_read_count [OF c0(2) this]
          have n: "0 \<le> n" "n \<le> byteLength b" by (simp_all add: byteLength_def)
          show ?thesis
          proof (cases "n = 0")
            case True
            with Some Inr rd p eq False sr have "b' = b1" by (simp add: read_def)
            with i1 c0 show ?thesis by (simp add: rinv_def)
          next
            case n0: False
            let ?b2 = "b1\<lparr>rdr_w := rdr_w b1 + n\<rparr>"
            have c2: "cursors_ok ?b2" "counts_ok (rdr_rd ?b2)" "byteLength ?b2 = byteLength b"
              using i1 fr n c0 by (simp_all add: rinv_def cursors_ok_def byteLength_def)
            from Some Inr rd p eq False sr n n0 have "read_copy ?b2 p = (res, b')"
              by (simp add: read_def)
            from read_copy_inv [OF c2(1,2) this] c2(3) show ?thesis by (simp add: rinv_def)
          qed
        qed
      qed
    qed
  qed
qed


lemma readFull_loop_inv:
  assumes "readFull_loop b p n = Some y"
  shows "cursors_ok b \<longrightarrow> counts_ok (rdr_rd b) \<longrightarrow> rinv b (snd y)"
proof (rule readFull_loop.raw_induct
    [where P = "\<lambda>b p n y. cursors_ok b \<longrightarrow> counts_ok (rdr_rd b) \<longrightarrow> rinv b (snd y)", OF _ assms])
  fix f :: "'a BufReader \<Rightarrow> view \<Rightarrow> int \<Rightarrow> ((jserror + view option) \<times> 'a BufReader) option"
    and b p bytesRead y
  assume IH: "\<And>b p n y. f b p n = Some y \<Longrightarrow>
               cursors_ok b \<longrightarrow> counts_ok (rdr_rd b) \<longrightarrow> rinv b (snd y)"
  assume step: "(if bytesRead < int (vlen p) then
        (case read b (view_subarray p bytesRead (int (vlen p))) of
           (Inl e, b') \<Rightarrow>
             Some (Inl (JsError (ekind e) (Some (view_subarray p 0 bytesRead))), b')
         | (Inr None, b') \<Rightarrow>
             if bytesRead = 0 then Some (Inr None, b')
             else Some (Inl (JsError PartialRead (Some (view_subarray p 0 bytesRead))), b')
         | (Inr (Some rr), b') \<Rightarrow> f b' p (bytesRead + rr))
      else Some (Inr (Some p), b)) = Some y"
  show "cursors_ok b \<longrightarrow> counts_ok (rdr_rd b) \<longrightarrow> rinv b (snd y)"
  proof (intro impI)
    assume c: "cursors_ok b" and k: "counts_ok (rdr_rd b)"
    show "rinv b (snd y)"
    proof (cases "bytesRead < int (vlen p)")
      case False
      with step c k show ?thesis by (auto simp: rinv_def)
    next
      case True
      obtain r1 b1 where rd: "read b (view_subarray p bytesRead (int (vlen p))) = (r1, b1)"
        by (cases "read b (view_subarray p bytesRead (int (vlen p)))")
      from read_inv [OF c k rd] have i1: "rinv b b1" .
      show ?thesis
      proof (cases r1)
        case (Inl e)
        with step True rd i1 show ?thesis by auto
      next
        case (Inr x)
        show ?thesis
        proof (cases x)
          case None
          with Inr step True rd i1 show ?thesis by (auto split: if_splits)
        next
          case (Some rr)
          with Inr step True rd have "f b1 p (bytesRead + rr) = Some y" by simp
          from IH [OF this] rinvD [OF i1] have "rinv b1 (snd y)" by simp
          with i1 show ?thesis by (rule rinv_trans)
        qed
      qed
    qed
  qed
qed

lemma readByte_inv:
  assumes "readByte b = Some y"
  shows "cursors_ok b \<longrightarrow> counts_ok (rdr_rd b) \<longrightarrow> rinv b (snd y)"
proof (rule readByte.raw_induct
    [where P = "\<lambda>b y. cursors_ok b \<longrightarrow> counts_ok (rdr_rd b) \<longrightarrow> rinv b (snd y)", OF _ assms])
  fix f :: "'a BufReader \<Rightarrow> ((jserror + byte option option) \<times> 'a BufReader) option"
    and b y
  assume IH: "\<And>b y. f b = Some y \<Longrightarrow>
               cursors_ok b \<longrightarrow> counts_ok (rdr_rd b) \<longrightarrow> rinv b (snd y)"
  assume step: "(if rdr_r b = rdr_w b then
        (if rdr_eof b then Some (Inr None, b)
         else (case fill b of
                 (Inl e, b') \<Rightarrow> Some (Inl e, b')
               | (Inr u, b') \<Rightarrow> f b'))
      else Some (Inr (Some (view_at (mem b) (rdr_buf b) (rdr_r b))), b\<lparr>rdr_r := rdr_r b + 1\<rparr>))
      = Some y"
  show "cursors_ok b \<longrightarrow> counts_ok (rdr_rd b) \<longrightarrow> rinv b (snd y)"
  proof (intro impI)
    assume c: "cursors_ok b" and k: "counts_ok (rdr_rd b)"
    show "rinv b (snd y)"
    proof (cases "rdr_r b = rdr_w b")
      case False
      with step c k show ?thesis by (auto simp: rinv_def cursors_ok_def byteLength_def)
    next
      case True
      show ?thesis
      proof (cases "rdr_eof b")
        case True
        with \<open>rdr_r b = rdr_w b\<close> step c k show ?thesis by (auto simp: rinv_def)
      next
        case False
        obtain r1 b1 where fl: "fill b = (r1, b1)" by (cases "fill b")
        from fill_inv [OF c k fl] have i1: "rinv b b1" by simp
        show ?thesis
        proof (cases r1)
          case (Inl e)
          with step True False fl i1 show ?thesis by auto
        next
          case (Inr u)
          with step True False fl have "f b1 = Some y" by simp
          from IH [OF this] rinvD [OF i1] have "rinv b1 (snd y)" by simp
          with i1 show ?thesis by (rule rinv_trans)
        qed
      qed
    qed
  qed
qed

lemma index_from_bound: "index_from xs d k \<noteq> - 1 \<Longrightarrow> 0 \<le> k \<Longrightarrow> k \<le> index_from xs d k \<and> index_from xs d k < k + int (length xs)"
proof (induction xs arbitrary: k)
  case Nil
  then show ?case by simp
next
  case (Cons x xs)
  show ?case
  proof (cases "unat x = d")
    case True
    then show ?thesis by simp
  next
    case False
    with Cons.prems have "index_from xs d (k + 1) \<noteq> - 1" by simp
    from Cons.IH [OF this] Cons.prems False show ?thesis by simp
  qed
qed

lemma index_from_neg: "0 \<le> k \<Longrightarrow> index_from xs d k \<ge> 0 \<or> index_from xs d k = - 1"
proof (induction xs arbitrary: k)
  case Nil then show ?case by simp
next
  case (Cons x xs)
  from Cons.IH [of "k + 1"] Cons.prems show ?case by simp
qed

lemma index_of_bound: "index_of xs d \<ge> 0 \<Longrightarrow> index_of xs d < int (length xs)"
  using index_from_bound [of xs d 0] by (auto simp: index_of_def)

lemma vlen_view_subarray_whole [simp]: "vlen (view_subarray v 0 (int (vlen v))) = vlen v"
  by (simp add: view_subarray_def rel_index_def)

lemma bind_SomeE:
  assumes "Option.bind m f = Some y"
  obtains x where "m = Some x" "f x = Some y"
  using assms by (cases m) auto

lemma readSlice_loop_inv:
  assumes "readSlice_loop b delim s = Some y"
  shows "cursors_ok b \<longrightarrow> counts_ok (rdr_rd b) \<longrightarrow> 0 \<le> s \<longrightarrow> s \<le> rdr_w b - rdr_r b
           \<longrightarrow> rinv b (snd y)"
proof (rule readSlice_loop.raw_induct
    [where P = "\<lambda>b delim s y. cursors_ok b \<longrightarrow> counts_ok (rdr_rd b) \<longrightarrow> 0 \<le> s
                  \<longrightarrow> s \<le> rdr_w b - rdr_r b \<longrightarrow> rinv b (snd y)", OF _ assms])
  fix f :: "'a BufReader \<Rightarrow> nat \<Rightarrow> int \<Rightarrow> ((jserror + view option) \<times> 'a BufReader) option"
    and b delim s y
  assume IH: "\<And>b delim s y. f b delim s = Some y \<Longrightarrow>
               cursors_ok b \<longrightarrow> counts_ok (rdr_rd b) \<longrightarrow> 0 \<le> s
                  \<longrightarrow> s \<le> rdr_w b - rdr_r b \<longrightarrow> rinv b (snd y)"
  assume step: "(let i = index_of (view_bytes (mem b)
                 (view_subarray (rdr_buf b) (rdr_r b + s) (rdr_w b))) delim
      in if i \<ge> 0 then
           (let i' = i + s;
                slice = view_subarray (rdr_buf b) (rdr_r b) (rdr_r b + i' + 1)
            in Some (Inr (Some slice), b\<lparr>rdr_r := rdr_r b + (i' + 1)\<rparr>))
         else if rdr_eof b then
           (if rdr_r b = rdr_w b then Some (Inr None, b)
            else Some (Inr (Some (view_subarray (rdr_buf b) (rdr_r b) (rdr_w b))),
                       b\<lparr>rdr_r := rdr_w b\<rparr>))
         else if reader_buffered b \<ge> byteLength b then
           (let oldbuf = rdr_buf b;
                newbuf = alloc (mem b) (view_bytes (mem b) (view_subarray (rdr_buf b) 0 (byteLength b)))
            in Some (Inl (JsError BufferFull (Some oldbuf)),
                     b\<lparr>rdr_r := rdr_w b, rdr_buf := fst newbuf, mem := snd newbuf\<rparr>))
         else
           (case fill b of
              (Inl e, b') \<Rightarrow> Some (Inl (JsError (ekind e) None), b')
            | (Inr u, b') \<Rightarrow> f b' delim (rdr_w b - rdr_r b))) = Some y"
  show "cursors_ok b \<longrightarrow> counts_ok (rdr_rd b) \<longrightarrow> 0 \<le> s \<longrightarrow> s \<le> rdr_w b - rdr_r b
           \<longrightarrow> rinv b (snd y)"
  proof (intro impI)
    assume c: "cursors_ok b" and k: "counts_ok (rdr_rd b)" and s0: "0 \<le> s"
      and s1: "s \<le> rdr_w b - rdr_r b"
    let ?v = "view_subarray (rdr_buf b) (rdr_r b + s) (rdr_w b)"
    let ?i = "index_of (view_bytes (mem b) ?v) delim"
    have vl: "int (vlen ?v) = rdr_w b - (rdr_r b + s)"
      using c s0 s1 by (intro vlen_view_subarray) (auto simp: cursors_ok_def byteLength_def)
    show "rinv b (snd y)"
    proof (cases "?i \<ge> 0")
      case True
      from index_of_bound [OF True] vl have "?i < rdr_w b - (rdr_r b + s)" by simp
      with step True c k s0 show ?thesis
        by (auto simp: Let_def rinv_def cursors_ok_def byteLength_def)
    next
      case nf: False
      show ?thesis
      proof (cases "rdr_eof b")
        case True
        with step nf c k show ?thesis
          by (auto simp: Let_def rinv_def cursors_ok_def byteLength_def split: if_splits)
      next
        case ne: False
        show ?thesis
        proof (cases "reader_buffered b \<ge> byteLength b")
          case True
          with step nf ne c k show ?thesis
            by (auto simp: Let_def rinv_def cursors_ok_def byteLength_def alloc_def)
        next
          case False
          obtain r1 b1 where fl: "fill b = (r1, b1)" by (cases "fill b")
          from fill_inv [OF c k fl] have i1: "rinv b b1"
            and gr: "rdr_w b - rdr_r b \<le> rdr_w b1 - rdr_r b1" by simp_all
          show ?thesis
          proof (cases r1)
            case (Inl e)
            with step nf ne False fl i1 show ?thesis by (auto simp: Let_def)
          next
            case (Inr u)
            with step nf ne False fl have "f b1 delim (rdr_w b - rdr_r b) = Some y"
              by (simp add: Let_def)
            from IH [OF this] rinvD [OF i1] gr c have "rinv b1 (snd y)"
              by (simp add: cursors_ok_def)
            with i1 show ?thesis by (rule rinv_trans)
          qed
        qed
      qed
    qed
  qed
qed

lemma readSlice_inv:
  "cursors_ok b \<Longrightarrow> counts_ok (rdr_rd b) \<Longrightarrow> readSlice b delim = Some (res, b') \<Longrightarrow> rinv b b'"
  using readSlice_loop_inv [of b delim 0 "(res, b')"]
  by (simp add: readSlice_def cursors_ok_def)

lemma peek_loop_inv:
  assumes "peek_loop b n = Some y"
  shows "cursors_ok b \<longrightarrow> counts_ok (rdr_rd b) \<longrightarrow> rinv b (snd y)"
proof (rule peek_loop.raw_induct
    [where P = "\<lambda>b n y. cursors_ok b \<longrightarrow> counts_ok (rdr_rd b) \<longrightarrow> rinv b (snd y)", OF _ assms])
  fix f :: "'a BufReader \<Rightarrow> int \<Rightarrow> ((jserror + view option) \<times> 'a BufReader) option"
    and b n y
  assume IH: "\<And>b n y. f b n = Some y \<Longrightarrow>
               cursors_ok b \<longrightarrow> counts_ok (rdr_rd b) \<longrightarrow> rinv b (snd y)"
  assume step: "(let avail = rdr_w b - rdr_r b
      in if avail < n \<and> avail < byteLength b \<and> \<not> rdr_eof b then
           (case fill b of
              (Inl e, b') \<Rightarrow>
                Some (Inl (JsError (ekind e)
                        (Some (view_subarray (rdr_buf b') (rdr_r b') (rdr_w b')))), b')
            | (Inr u, b') \<Rightarrow> f b' n)
         else if avail = 0 \<and> rdr_eof b then Some (Inr None, b)
         else if avail < n \<and> rdr_eof b then
           Some (Inr (Some (view_subarray (rdr_buf b) (rdr_r b) (rdr_r b + avail))), b)
         else if avail < n then
           Some (Inl (JsError BufferFull
                   (Some (view_subarray (rdr_buf b) (rdr_r b) (rdr_w b)))), b)
         else Some (Inr (Some (view_subarray (rdr_buf b) (rdr_r b) (rdr_r b + n))), b)) = Some y"
  show "cursors_ok b \<longrightarrow> counts_ok (rdr_rd b) \<longrightarrow> rinv b (snd y)"
  proof (intro impI)
    assume c: "cursors_ok b" and k: "counts_ok (rdr_rd b)"
    show "rinv b (snd y)"
    proof (cases "rdr_w b - rdr_r b < n \<and> rdr_w b - rdr_r b < byteLength b \<and> \<not> rdr_eof b")
      case False
      with step c k show ?thesis
        by (auto simp: Let_def rinv_def split: if_splits)
    next
      case True
      obtain r1 b1 where fl: "fill b = (r1, b1)" by (cases "fill b")
      from fill_inv [OF c k fl] have i1: "rinv b b1" by simp
      show ?thesis
      proof (cases r1)
        case (Inl e)
        with step True fl i1 show ?thesis by (auto simp: Let_def)
      next
        case (Inr u)
        with step True fl have "f b1 n = Some y" by (simp add: Let_def)
        from IH [OF this] rinvD [OF i1] have "rinv b1 (snd y)" by simp
        with i1 show ?thesis by (rule rinv_trans)
      qed
    qed
  qed
qed

lemma peek_inv:
  "cursors_ok b \<Longrightarrow> counts_ok (rdr_rd b) \<Longrightarrow> peek b n = Some (res, b') \<Longrightarrow> rinv b b'"
  using peek_loop_inv [of b n "(res, b')"]
  by (auto simp: peek_def rinv_def split: if_splits)

lemma readString_inv:
  assumes "cursors_ok b" "counts_ok (rdr_rd b)" "readString b delim = Some (res, b')"
  shows "rinv b b'"
proof (cases "length delim \<noteq> 1")
  case True
  with assms show ?thesis by (simp add: readString_def rinv_def)
next
  case False
  with assms(3) have "Option.bind (readSlice b (delim ! 0))
             (\<lambda>res. case fst res of
                Inl e \<Rightarrow> Some (Inl e, snd res)
              | Inr None \<Rightarrow> Some (Inr None, snd res)
              | Inr (Some buffer) \<Rightarrow> Some (Inr (Some (view_bytes (mem (snd res)) buffer)), snd res))
          = Some (res, b')" by (simp add: readString_def)
  then obtain x where rs: "readSlice b (delim ! 0) = Some x"
    and rest: "(case fst x of
                Inl e \<Rightarrow> Some (Inl e, snd x)
              | Inr None \<Rightarrow> Some (Inr None, snd x)
              | Inr (Some buffer) \<Rightarrow> Some (Inr (Some (view_bytes (mem (snd x)) buffer)), snd x))
          = Some (res, b')" by (rule bind_SomeE)
  from rest have "b' = snd x"
    by (cases "fst x") (auto split: option.splits)
  with readSlice_inv [OF assms(1,2), of "delim ! 0" "fst x" "snd x"] rs show ?thesis by simp
qed

lemma readLine_full_inv:
  assumes "cursors_ok b" "counts_ok (rdr_rd b)" "readLine_full b e = (res, b')"
  shows "rinv b b'"
  using assms
  by (auto simp: readLine_full_def rinv_def cursors_ok_def byteLength_def
           split: option.splits if_splits)

lemma readLine_inv:
  assumes "cursors_ok b" "counts_ok (rdr_rd b)" "readLine b = Some (res, b')"
  shows "rinv b b'"
proof -
  from assms(3) obtain x where rs0: "readSlice b (unat LF) = Some x"
    and rest0: "(case fst x of
          Inl e \<Rightarrow> Some (readLine_full (snd x) e)
        | Inr None \<Rightarrow> Some (Inr None, snd x)
        | Inr (Some line) \<Rightarrow>
            if vlen line = 0 then Some (Inr (Some (line, False)), snd x)
            else Some (Inr (Some (readLine_strip (mem (snd x)) line, False)), snd x)) = Some (res, b')"
    unfolding readLine_def by (rule bind_SomeE)
  define r1 where "r1 = fst x"
  define b1 where "b1 = snd x"
  from rs0 have rs: "readSlice b (unat LF) = Some (r1, b1)" by (simp add: r1_def b1_def)
  have rest: "(case r1 of
          Inl e \<Rightarrow> Some (readLine_full b1 e)
        | Inr None \<Rightarrow> Some (Inr None, b1)
        | Inr (Some line) \<Rightarrow>
            if vlen line = 0 then Some (Inr (Some (line, False)), b1)
            else Some (Inr (Some (readLine_strip (mem b1) line, False)), b1)) = Some (res, b')"
    unfolding r1_def b1_def by (rule rest0)
  from readSlice_inv [OF assms(1,2) rs] have i1: "rinv b b1" .
  show ?thesis
  proof (cases r1)
    case (Inl e)
    with rest have "readLine_full b1 e = (res, b')" by simp
    from readLine_full_inv [OF _ _ this] rinvD [OF i1] have "rinv b1 b'" by simp
    with i1 show ?thesis by (rule rinv_trans)
  next
    case (Inr x)
    with rest have "b' = b1" by (cases x) (auto split: if_splits)
    with i1 show ?thesis by simp
  qed
qed

lemma reader_reset_inv:
  "cursors_ok b \<Longrightarrow> counts_ok rd \<Longrightarrow> rinv b (reader_reset b rd)"
  by (simp add: reader_reset_def rinv_def cursors_ok_def byteLength_def)


lemma new_BufReader_inv:
  "cursors_ok (new_BufReader h rd size')"
  by (simp add: new_BufReader_def Let_def cursors_ok_def alloc_def byteLength_def MIN_BUF_SIZE_def)

text \<open>
  Claim C6.  A new reader satisfies \<open>0 \<le> r \<le> w \<le> capacity\<close>, and over a source whose
  counts lie between zero and the length of the buffer handed to it, every operation
  that returns or throws (\<open>read\<close>, \<open>readFull\<close>, \<open>readByte\<close>, \<open>readSlice\<close>,
  \<open>readString\<close>, \<open>readLine\<close>, \<open>peek\<close>, \<open>reset\<close>) leaves a reader that satisfies it
  again, with the same capacity.  The source may also throw.
\<close>

theorem cursor_invariant:
  "cursors_ok (new_BufReader h rd size')
   \<and> (cursors_ok b \<and> counts_ok (rdr_rd b) \<longrightarrow>
        (read b p = (res1, b1) \<longrightarrow> rinv b b1)
      \<and> (readFull b p = Some (res2, b2) \<longrightarrow> rinv b b2)
      \<and> (readByte b = Some (res3, b3) \<longrightarrow> rinv b b3)
      \<and> (readSlice b delim = Some (res4, b4) \<longrightarrow> rinv b b4)
      \<and> (readString b ds = Some (res5, b5) \<longrightarrow> rinv b b5)
      \<and> (readLine b = Some (res6, b6) \<longrightarrow> rinv b b6)
      \<and> (peek b n = Some (res7, b7) \<longrightarrow> rinv b b7)
      \<and> cursors_ok (reader_reset b rd) \<and> byteLength (reader_reset b rd) = byteLength b)"
proof (intro conjI impI)
  show "cursors_ok (new_BufReader h rd size')" by (rule new_BufReader_inv)
next
  assume a: "cursors_ok b \<and> counts_ok (rdr_rd b)"
  then have c: "cursors_ok b" and k: "counts_ok (rdr_rd b)" by simp_all
  show "rinv b b1" if "read b p = (res1, b1)" using read_inv [OF c k that] .
  show "rinv b b2" if "readFull b p = Some (res2, b2)"
    using readFull_loop_inv [of b p 0 "(res2, b2)"] that c k by (simp add: readFull_def)
  show "rinv b b3" if "readByte b = Some (res3, b3)"
    using readByte_inv [of b "(res3, b3)"] that c k by simp
  show "rinv b b4" if "readSlice b delim = Some (res4, b4)" using readSlice_inv [OF c k that] .
  show "rinv b b5" if "readString b ds = Some (res5, b5)" using readString_inv [OF c k that] .
  show "rinv b b6" if "readLine b = Some (res6, b6)" using readLine_inv [OF c k that] .
  show "rinv b b7" if "peek b n = Some (res7, b7)" using peek_inv [OF c k that] .
  show "cursors_ok (reader_reset b rd)" "byteLength (reader_reset b rd) = byteLength b"
    using c by (simp_all add: reader_reset_def cursors_ok_def byteLength_def)
qed

lemma is_none_False: "Option.is_none m = False \<Longrightarrow> \<exists>r b. m = Some (r, b)"
  by (cases m) auto

theorem cursor_invariant_witness:
  "cursors_ok (snd (read (new_BufReader [[0, 0, 0, 0]]
        \<lparr>on_read = (\<lambda>s n. if s = [] then (ReadEOF, s)
                          else (ReadCount (int (min n (length s))) (take n s), drop n s)),
         rstate = [97, 98, 99, 13, 10, 100, 101, 102, 10]\<rparr> 16) \<lparr>vaddr = 0, voff = 0, vlen = 4\<rparr>))
   \<and> (\<exists>res b'. readFull (new_BufReader [[0, 0, 0, 0]]
        \<lparr>on_read = (\<lambda>s n. if s = [] then (ReadEOF, s)
                          else (ReadCount (int (min n (length s))) (take n s), drop n s)),
         rstate = [97, 98, 99, 13, 10, 100, 101, 102, 10]\<rparr> 16) \<lparr>vaddr = 0, voff = 0, vlen = 4\<rparr> = Some (res, b') \<and> cursors_ok b')
   \<and> (\<exists>res b'. readByte (new_BufReader [[0, 0, 0, 0]]
        \<lparr>on_read = (\<lambda>s n. if s = [] then (ReadEOF, s)
                          else (ReadCount (int (min n (length s))) (take n s), drop n s)),
         rstate = [97, 98, 99, 13, 10, 100, 101, 102, 10]\<rparr> 16) = Some (res, b') \<and> cursors_ok b')
   \<and> (\<exists>res b'. readSlice (new_BufReader [[0, 0, 0, 0]]
        \<lparr>on_read = (\<lambda>s n. if s = [] then (ReadEOF, s)
                          else (ReadCount (int (min n (length s))) (take n s), drop n s)),
         rstate = [97, 98, 99, 13, 10, 100, 101, 102, 10]\<rparr> 16) 10 = Some (res, b') \<and> cursors_ok b')
   \<and> (\<exists>res b'. readString (new_BufReader [[0, 0, 0, 0]]
        \<lparr>on_read = (\<lambda>s n. if s = [] then (ReadEOF, s)
                          else (ReadCount (int (min n (length s))) (take n s), drop n s)),
         rstate = [97, 98, 99, 13, 10, 100, 101, 102, 10]\<rparr> 16) [10] = Some (res, b') \<and> cursors_ok b')
   \<and> (\<exists>res b'. readLine (new_BufReader [[0, 0, 0, 0]]
        \<lparr>on_read = (\<lambda>s n. if s = [] then (ReadEOF, s)
                          else (ReadCount (int (min n (length s))) (take n s), drop n s)),
         rstate = [97, 98, 99, 13, 10, 100, 101, 102, 10]\<rparr> 16) = Some (res, b') \<and> cursors_ok b')
   \<and> (\<exists>res b'. peek (new_BufReader [[0, 0, 0, 0]]
        \<lparr>on_read = (\<lambda>s n. if s = [] then (ReadEOF, s)
                          else (ReadCount (int (min n (length s))) (take n s), drop n s)),
         rstate = [97, 98, 99, 13, 10, 100, 101, 102, 10]\<rparr> 16) 4 = Some (res, b') \<and> cursors_ok b')"
proof -
  let ?S = "\<lparr>on_read = (\<lambda>(s :: bytes) n. if s = [] then (ReadEOF, s)
                          else (ReadCount (int (min n (length s))) (take n s), drop n s)),
         rstate = [97, 98, 99, 13, 10, 100, 101, 102, 10]\<rparr>"
  let ?B = "new_BufReader [[0, 0, 0, 0]] ?S 16"
  let ?P = "\<lparr>vaddr = 0, voff = 0, vlen = 4\<rparr>"
  have k: "counts_ok (rdr_rd ?B)"
    by (auto simp: counts_ok_def new_BufReader_def Let_def split: if_splits)
  have c: "cursors_ok ?B" by (rule new_BufReader_inv)
  obtain r1 b1 where e1: "read ?B ?P = (r1, b1)" by (cases "read ?B ?P")
  have "Option.is_none (readFull ?B ?P) = False" by code_simp
  then obtain r2 b2 where e2: "readFull ?B ?P = Some (r2, b2)" using is_none_False by blast
  have "Option.is_none (readByte ?B) = False" by code_simp
  then obtain r3 b3 where e3: "readByte ?B = Some (r3, b3)" using is_none_False by blast
  have "Option.is_none (readSlice ?B 10) = False" by code_simp
  then obtain r4 b4 where e4: "readSlice ?B 10 = Some (r4, b4)" using is_none_False by blast
  have "Option.is_none (readString ?B [10]) = False" by code_simp
  then obtain r5 b5 where e5: "readString ?B [10] = Some (r5, b5)" using is_none_False by blast
  have "Option.is_none (readLine ?B) = False" by code_simp
  then obtain r6 b6 where e6: "readLine ?B = Some (r6, b6)" using is_none_False by blast
  have "Option.is_none (peek ?B 4) = False" by code_simp
  then obtain r7 b7 where e7: "peek ?B 4 = Some (r7, b7)" using is_none_False by blast
  from cursor_invariant [of "[]" ?S 16 ?B ?P r1 b1 r2 b2 r3 b3 10 r4 b4 "[10]" r5 b5 r6 b6 4 r7 b7]
    c k e1 e2 e3 e4 e5 e6 e7
  have "rinv ?B b1" "rinv ?B b2" "rinv ?B b3" "rinv ?B b4" "rinv ?B b5" "rinv ?B b6" "rinv ?B b7"
    by simp_all
  with e1 e2 e3 e4 e5 e6 e7 show ?thesis by (auto simp: rinv_def)
qed

subsection \<open>Lines\<close>


lemma take_padded:
  "m \<le> n \<Longrightarrow> take m (xs @ replicate m z) = take m (xs @ replicate n (z :: 'a))"
  by (rule nth_equalityI) (auto simp: nth_append)

lemma view_bytes_prefix:
  "k \<le> vlen v \<Longrightarrow>
   view_bytes h (view_subarray v 0 (int (vlen v) - int k)) = take (vlen v - k) (view_bytes h v)"
proof -
  assume k: "k \<le> vlen v"
  have e: "int (vlen v) - int k = int (vlen v - k)" using k by simp
  have s: "view_subarray v 0 (int (vlen v - k)) = \<lparr>vaddr = vaddr v, voff = voff v, vlen = vlen v - k\<rparr>"
    by (simp add: view_subarray_def rel_index_def Let_def)
  have "take (vlen v - k) (drop (voff v) (h ! vaddr v) @ replicate (vlen v - k) 0)
      = take (vlen v - k) (drop (voff v) (h ! vaddr v) @ replicate (vlen v) 0)"
    by (rule take_padded) simp
  moreover have "min (vlen v - k) (vlen v) = vlen v - k" by simp
  ultimately show ?thesis
    unfolding e s view_bytes_def by (simp only: take_take view.simps)
qed

lemma view_at_last:
  "0 < vlen v \<Longrightarrow> view_at h v (int (vlen v) - 1) = Some (last (view_bytes h v))"
proof -
  assume a: "0 < vlen v"
  then have e: "nat (int (vlen v) - 1) = vlen v - 1" by simp
  have ne: "view_bytes h v \<noteq> []" using a by (metis length_view_bytes length_0_conv less_nat_zero_code)
  show ?thesis using a e
    by (simp add: view_at_def at_def last_conv_nth [OF ne])
qed

lemma view_at_last2:
  "1 < vlen v \<Longrightarrow> view_at h v (int (vlen v) - 2) = Some (view_bytes h v ! (vlen v - 2))"
proof -
  assume a: "1 < vlen v"
  then have e: "nat (int (vlen v) - 2) = vlen v - 2" by simp
  show ?thesis using a e by (simp add: view_at_def at_def)
qed

lemma readLine_strip_eol:
  "0 < vlen line \<Longrightarrow> view_bytes h (readLine_strip h line) = strip_eol (view_bytes h line)"
proof -
  assume a: "0 < vlen line"
  have ne: "view_bytes h line \<noteq> []" using a by (metis length_view_bytes length_0_conv less_nat_zero_code)
  show ?thesis
  proof (cases "last (view_bytes h line) = LF")
    case False
    with a ne show ?thesis by (simp add: readLine_strip_def strip_eol_def view_at_last)
  next
    case lf: True
    show ?thesis
    proof (cases "1 < vlen line \<and> view_bytes h line ! (vlen line - 2) = CR")
      case True
      then have "view_at h line (int (vlen line) - 2) = Some CR" by (simp add: view_at_last2)
      with True lf a ne view_bytes_prefix [of 2 line h] show ?thesis
        by (simp add: readLine_strip_def strip_eol_def view_at_last)
    next
      case False
      then have "\<not> (vlen line > 1 \<and> view_at h line (int (vlen line) - 2) = Some CR)"
        by (auto simp: view_at_last2)
      with False lf a ne view_bytes_prefix [of 1 line h] show ?thesis
        by (auto simp: readLine_strip_def strip_eol_def view_at_last Let_def)
    qed
  qed
qed

subsection \<open>What the reader writes to\<close>


lemma view_store_frame:
  "vaddr v \<noteq> a \<Longrightarrow> view_store h v bs ! a = h ! a"
  "length (view_store h v bs) = length h"
  by (simp_all add: view_store_def)

lemma copyWithin_frame:
  "vaddr v \<noteq> a \<Longrightarrow> copyWithin h v t s e ! a = h ! a"
  "length (copyWithin h v t s e) = length h"
  by (simp_all add: copyWithin_def Let_def view_store_frame)

lemma view_copy_frame:
  "vaddr dst \<noteq> a \<Longrightarrow> fst (view_copy h src dst off) ! a = h ! a"
  "length (fst (view_copy h src dst off)) = length h"
  by (simp_all add: view_copy_def Let_def view_store_frame)

lemma keeps_refl: "apart a b \<Longrightarrow> keeps a b b"
  by (simp add: keeps_def)

lemma keeps_trans: "keeps a b b1 \<Longrightarrow> keeps a b1 b2 \<Longrightarrow> keeps a b b2"
  by (simp add: keeps_def)

lemma keepsD: "keeps a b b' \<Longrightarrow> apart a b'"
  by (simp add: keeps_def)

lemma source_read_keeps:
  assumes "apart a b" "vaddr p \<noteq> a" "source_read b p = (res, b')"
  shows "keeps a b b'"
  using assms
  by (auto simp: source_read_def keeps_def apart_def view_store_frame
           split: prod.splits read_outcome.splits)

lemma source_read_kind:
  "source_read b p = (Inl e, b') \<Longrightarrow> ekind e \<noteq> BufferFull"
  by (auto simp: source_read_def split: prod.splits read_outcome.splits)

lemma fill_loop_keeps:
  "apart a b \<Longrightarrow> fill_loop b i = (res, b') \<Longrightarrow>
   keeps a b b' \<and> rdr_buf b' = rdr_buf b \<and> length (mem b') = length (mem b)
   \<and> (\<forall>e. res = Inl e \<longrightarrow> ekind e \<noteq> BufferFull)"
proof (induction i arbitrary: b)
  case 0
  then show ?case by (auto simp: keeps_def)
next
  case (Suc i)
  let ?p = "view_subarray (rdr_buf b) (rdr_w b) (byteLength b)"
  obtain r1 b1 where sr: "source_read b ?p = (r1, b1)" by (cases "source_read b ?p")
  have pa: "vaddr ?p \<noteq> a" using Suc.prems(1) by (simp add: apart_def)
  from source_read_keeps [OF Suc.prems(1) pa sr] have k1: "keeps a b b1" .
  note fr = source_read_frame [OF sr]
  have l1: "length (mem b1) = length (mem b)"
    using sr by (auto simp: source_read_def view_store_frame split: prod.splits read_outcome.splits)
  show ?case
  proof (cases r1)
    case (Inl e)
    with sr Suc.prems(2) k1 fr l1 source_read_kind [of b ?p e b1] show ?thesis by auto
  next
    case (Inr x)
    show ?thesis
    proof (cases x)
      case None
      with Inr sr Suc.prems(2) k1 fr l1 show ?thesis
        by (auto simp: keeps_def apart_def)
    next
      case (Some rr)
      let ?b2 = "b1\<lparr>rdr_w := rdr_w b1 + rr\<rparr>"
      have k2: "keeps a b ?b2" using k1 by (simp add: keeps_def apart_def)
      show ?thesis
      proof (cases "\<not> rr \<ge> 0")
        case True
        with Inr Some sr Suc.prems(2) k1 fr l1 show ?thesis by auto
      next
        case nn: False
        show ?thesis
        proof (cases "rr > 0")
          case True
          with nn Inr Some sr Suc.prems(2) k2 fr l1 show ?thesis by auto
        next
          case False
          with nn Inr Some sr Suc.prems(2) have "fill_loop ?b2 i = (res, b')" by simp
          from Suc.IH [OF keepsD [OF k2] this] k2 fr l1 show ?thesis
            by (auto intro: keeps_trans)
        qed
      qed
    qed
  qed
qed

lemma fill_keeps:
  assumes "apart a b" "fill b = (res, b')"
  shows "keeps a b b' \<and> rdr_buf b' = rdr_buf b \<and> length (mem b') = length (mem b)
   \<and> (\<forall>e. res = Inl e \<longrightarrow> ekind e \<noteq> BufferFull)"
proof -
  let ?b1 = "if rdr_r b > 0
                then b\<lparr>mem := copyWithin (mem b) (rdr_buf b) 0 (rdr_r b) (rdr_w b),
                       rdr_w := rdr_w b - rdr_r b, rdr_r := 0\<rparr>
                else b"
  have k1: "keeps a b ?b1" "rdr_buf ?b1 = rdr_buf b" "length (mem ?b1) = length (mem b)"
    using assms(1) by (auto simp: keeps_def apart_def copyWithin_frame)
  show ?thesis
  proof (cases "rdr_w ?b1 \<ge> byteLength ?b1")
    case True
    with assms(2) have "b' = ?b1" "res = Inl (JsError (PlainError ''bufio: tried to fill full buffer'') None)"
      by (auto simp: fill_def Let_def)
    with k1 show ?thesis by simp
  next
    case False
    with assms(2) have "fill_loop ?b1 100 = (res, b')" by (auto simp: fill_def Let_def)
    from fill_loop_keeps [OF keepsD [OF k1(1)] this] k1 show ?thesis
      by (auto intro: keeps_trans)
  qed
qed

lemma read_copy_keeps:
  assumes "apart a b" "vaddr p \<noteq> a" "read_copy b p = (res, b')"
  shows "keeps a b b'"
  using assms by (auto simp: read_copy_def Let_def keeps_def apart_def view_copy_frame)

lemma read_keeps:
  assumes ap: "apart a b" and pa: "vaddr p \<noteq> a" and rd: "read b p = (res, b')"
  shows "keeps a b b'"
proof (cases "vlen p = 0")
  case True
  with assms show ?thesis by (simp add: read_def keeps_def)
next
  case p: False
  show ?thesis
  proof (cases "rdr_r b = rdr_w b")
    case False
    with p rd have "read_copy b p = (res, b')" by (simp add: read_def)
    from read_copy_keeps [OF ap pa this] show ?thesis .
  next
    case eq: True
    show ?thesis
    proof (cases "int (vlen p) \<ge> byteLength b")
      case True
      obtain r1 b1 where sr: "source_read b p = (r1, b1)" by (cases "source_read b p")
      from source_read_keeps [OF ap pa sr] have i1: "keeps a b b1" .
      from rd p eq True sr have "b' = b1"
        by (cases r1) (auto simp: read_def Let_def split: if_splits)
      with i1 show ?thesis by simp
    next
      case False
      let ?b0 = "b\<lparr>rdr_r := 0, rdr_w := 0\<rparr>"
      have a0: "apart a ?b0" "vaddr (rdr_buf b) \<noteq> a" "keeps a b ?b0"
        using ap by (simp_all add: apart_def keeps_def)
      obtain r1 b1 where sr: "source_read ?b0 (rdr_buf b) = (r1, b1)"
        by (cases "source_read ?b0 (rdr_buf b)")
      from source_read_keeps [OF a0(1,2) sr] a0(3) have i1: "keeps a b b1"
        by (auto intro: keeps_trans)
      show ?thesis
      proof (cases r1)
        case (Inl e)
        with rd p eq False sr have "b' = b1" by (simp add: read_def)
        with i1 show ?thesis by simp
      next
        case (Inr x)
        show ?thesis
        proof (cases x)
          case None
          with Inr rd p eq False sr have "b' = b1" by (simp add: read_def)
          with i1 show ?thesis by simp
        next
          case (Some n)
          show ?thesis
          proof (cases "n = 0 \<or> \<not> n \<ge> 0")
            case True
            with Some Inr rd p eq False sr have "b' = b1" by (auto simp: read_def)
            with i1 show ?thesis by simp
          next
            case n0: False
            let ?b2 = "b1\<lparr>rdr_w := rdr_w b1 + n\<rparr>"
            have k2: "keeps a b ?b2" using i1 by (simp add: keeps_def apart_def)
            from Some Inr rd p eq False sr n0 have "read_copy ?b2 p = (res, b')"
              by (simp add: read_def)
            from read_copy_keeps [OF keepsD [OF k2] pa this] k2 show ?thesis
              by (auto intro: keeps_trans)
          qed
        qed
      qed
    qed
  qed
qed


lemma readFull_loop_keeps:
  assumes "readFull_loop b p n = Some y"
  shows "apart a b \<longrightarrow> vaddr p \<noteq> a \<longrightarrow> keeps a b (snd y)"
proof (rule readFull_loop.raw_induct
    [where P = "\<lambda>b p n y. apart a b \<longrightarrow> vaddr p \<noteq> a \<longrightarrow> keeps a b (snd y)", OF _ assms])
  fix f :: "'a BufReader \<Rightarrow> view \<Rightarrow> int \<Rightarrow> ((jserror + view option) \<times> 'a BufReader) option"
    and b p bytesRead y
  assume IH: "\<And>b p n y. f b p n = Some y \<Longrightarrow>
               apart a b \<longrightarrow> vaddr p \<noteq> a \<longrightarrow> keeps a b (snd y)"
  assume step: "(if bytesRead < int (vlen p) then
        (case read b (view_subarray p bytesRead (int (vlen p))) of
           (Inl e, b') \<Rightarrow>
             Some (Inl (JsError (ekind e) (Some (view_subarray p 0 bytesRead))), b')
         | (Inr None, b') \<Rightarrow>
             if bytesRead = 0 then Some (Inr None, b')
             else Some (Inl (JsError PartialRead (Some (view_subarray p 0 bytesRead))), b')
         | (Inr (Some rr), b') \<Rightarrow> f b' p (bytesRead + rr))
      else Some (Inr (Some p), b)) = Some y"
  show "apart a b \<longrightarrow> vaddr p \<noteq> a \<longrightarrow> keeps a b (snd y)"
  proof (intro impI)
    assume ap: "apart a b" and pa: "vaddr p \<noteq> a"
    show "keeps a b (snd y)"
    proof (cases "bytesRead < int (vlen p)")
      case False
      with step ap show ?thesis by (auto simp: keeps_def)
    next
      case True
      obtain r1 b1 where rd: "read b (view_subarray p bytesRead (int (vlen p))) = (r1, b1)"
        by (cases "read b (view_subarray p bytesRead (int (vlen p)))")
      have "vaddr (view_subarray p bytesRead (int (vlen p))) \<noteq> a" using pa by simp
      from read_keeps [OF ap this rd] have i1: "keeps a b b1" .
      show ?thesis
      proof (cases r1)
        case (Inl e)
        with step True rd i1 show ?thesis by auto
      next
        case (Inr x)
        show ?thesis
        proof (cases x)
          case None
          with Inr step True rd i1 show ?thesis by (auto split: if_splits)
        next
          case (Some rr)
          with Inr step True rd have "f b1 p (bytesRead + rr) = Some y" by simp
          from IH [OF this] keepsD [OF i1] pa have "keeps a b1 (snd y)" by simp
          with i1 show ?thesis by (rule keeps_trans)
        qed
      qed
    qed
  qed
qed

lemma readByte_keeps:
  assumes "readByte b = Some y"
  shows "apart a b \<longrightarrow> keeps a b (snd y)"
proof (rule readByte.raw_induct
    [where P = "\<lambda>b y. apart a b \<longrightarrow> keeps a b (snd y)", OF _ assms])
  fix f :: "'a BufReader \<Rightarrow> ((jserror + byte option option) \<times> 'a BufReader) option"
    and b y
  assume IH: "\<And>b y. f b = Some y \<Longrightarrow> apart a b \<longrightarrow> keeps a b (snd y)"
  assume step: "(if rdr_r b = rdr_w b then
        (if rdr_eof b then Some (Inr None, b)
         else (case fill b of
                 (Inl e, b') \<Rightarrow> Some (Inl e, b')
               | (Inr u, b') \<Rightarrow> f b'))
      else Some (Inr (Some (view_at (mem b) (rdr_buf b) (rdr_r b))), b\<lparr>rdr_r := rdr_r b + 1\<rparr>))
      = Some y"
  show "apart a b \<longrightarrow> keeps a b (snd y)"
  proof (intro impI)
    assume ap: "apart a b"
    show "keeps a b (snd y)"
    proof (cases "rdr_r b = rdr_w b")
      case False
      with step ap show ?thesis by (auto simp: keeps_def apart_def)
    next
      case True
      show ?thesis
      proof (cases "rdr_eof b")
        case True
        with \<open>rdr_r b = rdr_w b\<close> step ap show ?thesis by (auto simp: keeps_def)
      next
        case False
        obtain r1 b1 where fl: "fill b = (r1, b1)" by (cases "fill b")
        from fill_keeps [OF ap fl] have i1: "keeps a b b1" by simp
        show ?thesis
        proof (cases r1)
          case (Inl e)
          with step True False fl i1 show ?thesis by auto
        next
          case (Inr u)
          with step True False fl have "f b1 = Some y" by simp
          from IH [OF this] keepsD [OF i1] have "keeps a b1 (snd y)" by simp
          with i1 show ?thesis by (rule keeps_trans)
        qed
      qed
    qed
  qed
qed

lemma readSlice_loop_keeps:
  assumes "readSlice_loop b delim s = Some y"
  shows "apart a b \<longrightarrow> keeps a b (snd y)"
proof (rule readSlice_loop.raw_induct
    [where P = "\<lambda>b delim s y. apart a b \<longrightarrow> keeps a b (snd y)", OF _ assms])
  fix f :: "'a BufReader \<Rightarrow> nat \<Rightarrow> int \<Rightarrow> ((jserror + view option) \<times> 'a BufReader) option"
    and b delim s y
  assume IH: "\<And>b delim s y. f b delim s = Some y \<Longrightarrow> apart a b \<longrightarrow> keeps a b (snd y)"
  assume step: "(let i = index_of (view_bytes (mem b)
                 (view_subarray (rdr_buf b) (rdr_r b + s) (rdr_w b))) delim
      in if i \<ge> 0 then
           (let i' = i + s;
                slice = view_subarray (rdr_buf b) (rdr_r b) (rdr_r b + i' + 1)
            in Some (Inr (Some slice), b\<lparr>rdr_r := rdr_r b + (i' + 1)\<rparr>))
         else if rdr_eof b then
           (if rdr_r b = rdr_w b then Some (Inr None, b)
            else Some (Inr (Some (view_subarray (rdr_buf b) (rdr_r b) (rdr_w b))),
                       b\<lparr>rdr_r := rdr_w b\<rparr>))
         else if reader_buffered b \<ge> byteLength b then
           (let oldbuf = rdr_buf b;
                newbuf = alloc (mem b) (view_bytes (mem b) (view_subarray (rdr_buf b) 0 (byteLength b)))
            in Some (Inl (JsError BufferFull (Some oldbuf)),
                     b\<lparr>rdr_r := rdr_w b, rdr_buf := fst newbuf, mem := snd newbuf\<rparr>))
         else
           (case fill b of
              (Inl e, b') \<Rightarrow> Some (Inl (JsError (ekind e) None), b')
            | (Inr u, b') \<Rightarrow> f b' delim (rdr_w b - rdr_r b))) = Some y"
  show "apart a b \<longrightarrow> keeps a b (snd y)"
  proof (intro impI)
    assume ap: "apart a b"
    let ?i = "index_of (view_bytes (mem b)
                 (view_subarray (rdr_buf b) (rdr_r b + s) (rdr_w b))) delim"
    show "keeps a b (snd y)"
    proof (cases "?i \<ge> 0")
      case True
      with step ap show ?thesis by (auto simp: Let_def keeps_def apart_def)
    next
      case nf: False
      show ?thesis
      proof (cases "rdr_eof b")
        case True
        with step nf ap show ?thesis
          by (auto simp: Let_def keeps_def apart_def split: if_splits)
      next
        case ne: False
        show ?thesis
        proof (cases "reader_buffered b \<ge> byteLength b")
          case True
          with step nf ne ap show ?thesis
            by (auto simp: Let_def keeps_def apart_def alloc_def nth_append)
        next
          case False
          obtain r1 b1 where fl: "fill b = (r1, b1)" by (cases "fill b")
          from fill_keeps [OF ap fl] have i1: "keeps a b b1" by simp
          show ?thesis
          proof (cases r1)
            case (Inl e)
            with step nf ne False fl i1 show ?thesis by (auto simp: Let_def)
          next
            case (Inr u)
            with step nf ne False fl have "f b1 delim (rdr_w b - rdr_r b) = Some y"
              by (simp add: Let_def)
            from IH [OF this] keepsD [OF i1] have "keeps a b1 (snd y)" by simp
            with i1 show ?thesis by (rule keeps_trans)
          qed
        qed
      qed
    qed
  qed
qed

lemma peek_loop_keeps:
  assumes "peek_loop b n = Some y"
  shows "apart a b \<longrightarrow> keeps a b (snd y)"
proof (rule peek_loop.raw_induct
    [where P = "\<lambda>b n y. apart a b \<longrightarrow> keeps a b (snd y)", OF _ assms])
  fix f :: "'a BufReader \<Rightarrow> int \<Rightarrow> ((jserror + view option) \<times> 'a BufReader) option"
    and b n y
  assume IH: "\<And>b n y. f b n = Some y \<Longrightarrow> apart a b \<longrightarrow> keeps a b (snd y)"
  assume step: "(let avail = rdr_w b - rdr_r b
      in if avail < n \<and> avail < byteLength b \<and> \<not> rdr_eof b then
           (case fill b of
              (Inl e, b') \<Rightarrow>
                Some (Inl (JsError (ekind e)
                        (Some (view_subarray (rdr_buf b') (rdr_r b') (rdr_w b')))), b')
            | (Inr u, b') \<Rightarrow> f b' n)
         else if avail = 0 \<and> rdr_eof b then Some (Inr None, b)
         else if avail < n \<and> rdr_eof b then
           Some (Inr (Some (view_subarray (rdr_buf b) (rdr_r b) (rdr_r b + avail))), b)
         else if avail < n then
           Some (Inl (JsError BufferFull
                   (Some (view_subarray (rdr_buf b) (rdr_r b) (rdr_w b)))), b)
         else Some (Inr (Some (view_subarray (rdr_buf b) (rdr_r b) (rdr_r b + n))), b)) = Some y"
  show "apart a b \<longrightarrow> keeps a b (snd y)"
  proof (intro impI)
    assume ap: "apart a b"
    show "keeps a b (snd y)"
    proof (cases "rdr_w b - rdr_r b < n \<and> rdr_w b - rdr_r b < byteLength b \<and> \<not> rdr_eof b")
      case False
      with step ap show ?thesis
        by (auto simp: Let_def keeps_def split: if_splits)
    next
      case True
      obtain r1 b1 where fl: "fill b = (r1, b1)" by (cases "fill b")
      from fill_keeps [OF ap fl] have i1: "keeps a b b1" by simp
      show ?thesis
      proof (cases r1)
        case (Inl e)
        with step True fl i1 show ?thesis by (auto simp: Let_def)
      next
        case (Inr u)
        with step True fl have "f b1 n = Some y" by (simp add: Let_def)
        from IH [OF this] keepsD [OF i1] have "keeps a b1 (snd y)" by simp
        with i1 show ?thesis by (rule keeps_trans)
      qed
    qed
  qed
qed

lemma readSlice_keeps:
  "apart a b \<Longrightarrow> readSlice b delim = Some (res, b') \<Longrightarrow> keeps a b b'"
  using readSlice_loop_keeps [of b delim 0 "(res, b')" a] by (simp add: readSlice_def)

lemma readString_keeps:
  assumes "apart a b" "readString b delim = Some (res, b')"
  shows "keeps a b b'"
proof (cases "length delim \<noteq> 1")
  case True
  with assms show ?thesis by (simp add: readString_def keeps_def)
next
  case False
  with assms(2) have "Option.bind (readSlice b (delim ! 0))
             (\<lambda>res. case fst res of
                Inl e \<Rightarrow> Some (Inl e, snd res)
              | Inr None \<Rightarrow> Some (Inr None, snd res)
              | Inr (Some buffer) \<Rightarrow> Some (Inr (Some (view_bytes (mem (snd res)) buffer)), snd res))
          = Some (res, b')" by (simp add: readString_def)
  then obtain x where rs: "readSlice b (delim ! 0) = Some x"
    and rest: "(case fst x of
                Inl e \<Rightarrow> Some (Inl e, snd x)
              | Inr None \<Rightarrow> Some (Inr None, snd x)
              | Inr (Some buffer) \<Rightarrow> Some (Inr (Some (view_bytes (mem (snd x)) buffer)), snd x))
          = Some (res, b')" by (rule bind_SomeE)
  from rest have "b' = snd x"
    by (cases "fst x") (auto split: option.splits)
  with readSlice_keeps [OF assms(1), of "delim ! 0" "fst x" "snd x"] rs show ?thesis by simp
qed

lemma readLine_full_keeps:
  assumes "apart a b" "readLine_full b e = (res, b')"
  shows "keeps a b b'"
  using assms
  by (auto simp: readLine_full_def keeps_def apart_def split: option.splits if_splits)

lemma readLine_keeps:
  assumes "apart a b" "readLine b = Some (res, b')"
  shows "keeps a b b'"
proof -
  from assms(2) obtain x where rs0: "readSlice b (unat LF) = Some x"
    and rest0: "(case fst x of
          Inl e \<Rightarrow> Some (readLine_full (snd x) e)
        | Inr None \<Rightarrow> Some (Inr None, snd x)
        | Inr (Some line) \<Rightarrow>
            if vlen line = 0 then Some (Inr (Some (line, False)), snd x)
            else Some (Inr (Some (readLine_strip (mem (snd x)) line, False)), snd x)) = Some (res, b')"
    unfolding readLine_def by (rule bind_SomeE)
  define r1 where "r1 = fst x"
  define b1 where "b1 = snd x"
  from rs0 have rs: "readSlice b (unat LF) = Some (r1, b1)" by (simp add: r1_def b1_def)
  have rest: "(case r1 of
          Inl e \<Rightarrow> Some (readLine_full b1 e)
        | Inr None \<Rightarrow> Some (Inr None, b1)
        | Inr (Some line) \<Rightarrow>
            if vlen line = 0 then Some (Inr (Some (line, False)), b1)
            else Some (Inr (Some (readLine_strip (mem b1) line, False)), b1)) = Some (res, b')"
    unfolding r1_def b1_def by (rule rest0)
  from readSlice_keeps [OF assms(1) rs] have i1: "keeps a b b1" .
  show ?thesis
  proof (cases r1)
    case (Inl e)
    with rest have "readLine_full b1 e = (res, b')" by simp
    from readLine_full_keeps [OF keepsD [OF i1] this] i1 show ?thesis
      by (auto intro: keeps_trans)
  next
    case (Inr x)
    with rest have "b' = b1" by (cases x) (auto split: if_splits)
    with i1 show ?thesis by simp
  qed
qed

lemma peek_keeps:
  "apart a b \<Longrightarrow> peek b n = Some (res, b') \<Longrightarrow> keeps a b b'"
  using peek_loop_keeps [of b n "(res, b')" a]
  by (auto simp: peek_def keeps_def split: if_splits)

lemma run_op_keeps:
  assumes "apart a b" "run_op b x = Some b'" "\<forall>p. op_dest x = Some p \<longrightarrow> vaddr p \<noteq> a"
  shows "keeps a b b'"
proof (cases x)
  case (OpRead p)
  with assms have "read b p = (fst (read b p), b')" "vaddr p \<noteq> a" by auto
  from read_keeps [OF assms(1) this(2) this(1)] show ?thesis .
next
  case (OpReadFull p)
  with assms obtain res where "readFull_loop b p 0 = Some (res, b')"
    by (auto simp: readFull_def)
  from readFull_loop_keeps [OF this, of a] assms OpReadFull show ?thesis by simp
next
  case OpReadByte
  with assms obtain res where "readByte b = Some (res, b')" by auto
  from readByte_keeps [OF this, of a] assms show ?thesis by simp
next
  case (OpReadSlice d)
  with assms obtain res where "readSlice b d = Some (res, b')" by auto
  from readSlice_keeps [OF assms(1) this] show ?thesis .
next
  case (OpReadString d)
  with assms obtain res where "readString b d = Some (res, b')" by auto
  from readString_keeps [OF assms(1) this] show ?thesis .
next
  case OpReadLine
  with assms obtain res where "readLine b = Some (res, b')" by auto
  from readLine_keeps [OF assms(1) this] show ?thesis .
next
  case (OpPeek n)
  with assms obtain res where "peek b n = Some (res, b')" by auto
  from peek_keeps [OF assms(1) this] show ?thesis .
next
  case (OpReset rd)
  with assms show ?thesis by (auto simp: reader_reset_def keeps_def apart_def)
qed

lemma run_ops_keeps:
  "apart a b \<Longrightarrow> run_ops b xs = Some b' \<Longrightarrow>
   \<forall>x \<in> set xs. \<forall>p. op_dest x = Some p \<longrightarrow> vaddr p \<noteq> a \<Longrightarrow> keeps a b b'"
proof (induction xs arbitrary: b)
  case Nil
  then show ?case by (simp add: keeps_def)
next
  case (Cons x xs)
  from Cons.prems(2) obtain b1 where r1: "run_op b x = Some b1" and r2: "run_ops b1 xs = Some b'"
    by (auto simp: bind_eq_Some_conv)
  from run_op_keeps [OF Cons.prems(1) r1] Cons.prems(3) have k1: "keeps a b b1" by simp
  from Cons.IH [OF keepsD [OF k1] r2] Cons.prems(3) have "keeps a b1 b'" by simp
  with k1 show ?case by (rule keeps_trans)
qed

subsection \<open>The payload of a buffer-full error\<close>


lemma source_read_buf:
  "source_read b p = (res, b') \<Longrightarrow> rdr_buf b' = rdr_buf b \<and> length (mem b') = length (mem b)"
  by (auto simp: source_read_def view_store_frame split: prod.splits read_outcome.splits)

lemma fill_loop_buf:
  "fill_loop b i = (res, b') \<Longrightarrow>
   rdr_buf b' = rdr_buf b \<and> length (mem b') = length (mem b)
   \<and> (\<forall>e. res = Inl e \<longrightarrow> ekind e \<noteq> BufferFull)"
proof (induction i arbitrary: b)
  case 0
  then show ?case by auto
next
  case (Suc i)
  let ?p = "view_subarray (rdr_buf b) (rdr_w b) (byteLength b)"
  obtain r1 b1 where sr: "source_read b ?p = (r1, b1)" by (cases "source_read b ?p")
  note sb = source_read_buf [OF sr]
  show ?case
  proof (cases r1)
    case (Inl e)
    with sr Suc.prems sb source_read_kind [of b ?p e b1] show ?thesis by auto
  next
    case (Inr x)
    show ?thesis
    proof (cases x)
      case None
      with Inr sr Suc.prems sb show ?thesis by auto
    next
      case (Some rr)
      show ?thesis
      proof (cases "rr \<ge> 0 \<and> \<not> rr > 0")
        case False
        with Inr Some sr Suc.prems sb show ?thesis by (auto split: if_splits)
      next
        case True
        with Inr Some sr Suc.prems have "fill_loop (b1\<lparr>rdr_w := rdr_w b1 + rr\<rparr>) i = (res, b')"
          by simp
        from Suc.IH [OF this] sb show ?thesis by simp
      qed
    qed
  qed
qed

lemma fill_buf:
  assumes "fill b = (res, b')"
  shows "rdr_buf b' = rdr_buf b \<and> length (mem b') = length (mem b)
   \<and> (\<forall>e. res = Inl e \<longrightarrow> ekind e \<noteq> BufferFull)"
proof -
  let ?b1 = "if rdr_r b > 0
                then b\<lparr>mem := copyWithin (mem b) (rdr_buf b) 0 (rdr_r b) (rdr_w b),
                       rdr_w := rdr_w b - rdr_r b, rdr_r := 0\<rparr>
                else b"
  have k1: "rdr_buf ?b1 = rdr_buf b" "length (mem ?b1) = length (mem b)"
    by (auto simp: copyWithin_frame)
  show ?thesis
  proof (cases "rdr_w ?b1 \<ge> byteLength ?b1")
    case True
    with assms have "b' = ?b1" "res = Inl (JsError (PlainError ''bufio: tried to fill full buffer'') None)"
      by (auto simp: fill_def Let_def)
    with k1 show ?thesis by simp
  next
    case False
    with assms have "fill_loop ?b1 100 = (res, b')" by (auto simp: fill_def Let_def)
    from fill_loop_buf [OF this] k1 show ?thesis by simp
  qed
qed

lemma view_subarray_whole: "view_subarray v 0 (int (vlen v)) = v"
  by (simp add: view_subarray_def rel_index_def)

lemma view_bytes_alloc:
  "view_bytes (h @ [bs]) \<lparr>vaddr = length h, voff = 0, vlen = length bs\<rparr> = bs"
  by (simp add: view_bytes_def)

lemma view_bytes_append:
  "vaddr v < length h \<Longrightarrow> view_bytes (h @ [bs]) v = view_bytes h v"
  by (simp add: view_bytes_def nth_append)

lemma readSlice_loop_full:
  assumes "readSlice_loop b delim s = Some y"
  shows "\<forall>e b'. y = (Inl e, b') \<longrightarrow> ekind e = BufferFull \<longrightarrow> vaddr (rdr_buf b) < length (mem b) \<longrightarrow>
           epartial e = Some (rdr_buf b) \<and> apart (vaddr (rdr_buf b)) b'
           \<and> view_bytes (mem b') (rdr_buf b') = view_bytes (mem b') (rdr_buf b)"
proof (rule readSlice_loop.raw_induct
    [where P = "\<lambda>b delim s y. \<forall>e b'. y = (Inl e, b') \<longrightarrow> ekind e = BufferFull
           \<longrightarrow> vaddr (rdr_buf b) < length (mem b) \<longrightarrow>
           epartial e = Some (rdr_buf b) \<and> apart (vaddr (rdr_buf b)) b'
           \<and> view_bytes (mem b') (rdr_buf b') = view_bytes (mem b') (rdr_buf b)", OF _ assms])
  fix f :: "'a BufReader \<Rightarrow> nat \<Rightarrow> int \<Rightarrow> ((jserror + view option) \<times> 'a BufReader) option"
    and b delim s y
  assume IH: "\<And>b delim s y. f b delim s = Some y \<Longrightarrow>
          \<forall>e b'. y = (Inl e, b') \<longrightarrow> ekind e = BufferFull
           \<longrightarrow> vaddr (rdr_buf b) < length (mem b) \<longrightarrow>
           epartial e = Some (rdr_buf b) \<and> apart (vaddr (rdr_buf b)) b'
           \<and> view_bytes (mem b') (rdr_buf b') = view_bytes (mem b') (rdr_buf b)"
  assume step: "(let i = index_of (view_bytes (mem b)
                 (view_subarray (rdr_buf b) (rdr_r b + s) (rdr_w b))) delim
      in if i \<ge> 0 then
           (let i' = i + s;
                slice = view_subarray (rdr_buf b) (rdr_r b) (rdr_r b + i' + 1)
            in Some (Inr (Some slice), b\<lparr>rdr_r := rdr_r b + (i' + 1)\<rparr>))
         else if rdr_eof b then
           (if rdr_r b = rdr_w b then Some (Inr None, b)
            else Some (Inr (Some (view_subarray (rdr_buf b) (rdr_r b) (rdr_w b))),
                       b\<lparr>rdr_r := rdr_w b\<rparr>))
         else if reader_buffered b \<ge> byteLength b then
           (let oldbuf = rdr_buf b;
                newbuf = alloc (mem b) (view_bytes (mem b) (view_subarray (rdr_buf b) 0 (byteLength b)))
            in Some (Inl (JsError BufferFull (Some oldbuf)),
                     b\<lparr>rdr_r := rdr_w b, rdr_buf := fst newbuf, mem := snd newbuf\<rparr>))
         else
           (case fill b of
              (Inl e, b') \<Rightarrow> Some (Inl (JsError (ekind e) None), b')
            | (Inr u, b') \<Rightarrow> f b' delim (rdr_w b - rdr_r b))) = Some y"
  show "\<forall>e b'. y = (Inl e, b') \<longrightarrow> ekind e = BufferFull \<longrightarrow> vaddr (rdr_buf b) < length (mem b) \<longrightarrow>
           epartial e = Some (rdr_buf b) \<and> apart (vaddr (rdr_buf b)) b'
           \<and> view_bytes (mem b') (rdr_buf b') = view_bytes (mem b') (rdr_buf b)"
  proof (intro allI impI)
    fix e b'
    assume y: "y = (Inl e, b')" and bf: "ekind e = BufferFull"
      and al: "vaddr (rdr_buf b) < length (mem b)"
    let ?i = "index_of (view_bytes (mem b)
                 (view_subarray (rdr_buf b) (rdr_r b + s) (rdr_w b))) delim"
    show "epartial e = Some (rdr_buf b) \<and> apart (vaddr (rdr_buf b)) b'
           \<and> view_bytes (mem b') (rdr_buf b') = view_bytes (mem b') (rdr_buf b)"
    proof (cases "?i \<ge> 0")
      case True
      with step y show ?thesis by (simp add: Let_def)
    next
      case nf: False
      show ?thesis
      proof (cases "rdr_eof b")
        case True
        with step nf y show ?thesis by (simp add: Let_def split: if_splits)
      next
        case ne: False
        show ?thesis
        proof (cases "reader_buffered b \<ge> byteLength b")
          case True
          with step nf ne y have e: "e = JsError BufferFull (Some (rdr_buf b))"
            and b': "b' = b\<lparr>rdr_r := rdr_w b,
                 rdr_buf := \<lparr>vaddr = length (mem b), voff = 0,
                              vlen = length (view_bytes (mem b) (rdr_buf b))\<rparr>,
                 mem := mem b @ [view_bytes (mem b) (rdr_buf b)]\<rparr>"
            by (simp_all add: Let_def alloc_def byteLength_def view_subarray_whole)
          from al have "view_bytes (mem b') (rdr_buf b) = view_bytes (mem b) (rdr_buf b)"
            unfolding b' by (simp add: view_bytes_append)
          moreover have "view_bytes (mem b') (rdr_buf b') = view_bytes (mem b) (rdr_buf b)"
            unfolding b' by (simp add: view_bytes_alloc del: length_view_bytes)
          ultimately show ?thesis using e al b' by (simp add: apart_def)
        next
          case False
          obtain r1 b1 where fl: "fill b = (r1, b1)" by (cases "fill b")
          note fb = fill_buf [OF fl]
          show ?thesis
          proof (cases r1)
            case (Inl e1)
            with step nf ne False fl y bf fb show ?thesis by (auto simp: Let_def)
          next
            case (Inr u)
            with step nf ne False fl have "f b1 delim (rdr_w b - rdr_r b) = Some y"
              by (simp add: Let_def)
            from IH [OF this] y bf al fb show ?thesis by simp
          qed
        qed
      qed
    qed
  qed
qed

subsection \<open>Reading lines from a stream of bytes\<close>


lemma reader_wf_nat:
  assumes "reader_wf pol b"
  obtains rn wn where "rdr_r b = int rn" "rdr_w b = int wn" "rn \<le> wn" "wn \<le> vlen (rdr_buf b)"
proof -
  from assms have c: "0 \<le> rdr_r b" "rdr_r b \<le> rdr_w b" "rdr_w b \<le> int (vlen (rdr_buf b))"
    by (simp_all add: reader_wf_def cursors_ok_def byteLength_def)
  then have "rdr_r b = int (nat (rdr_r b))" "rdr_w b = int (nat (rdr_w b))"
    "nat (rdr_r b) \<le> nat (rdr_w b)" "nat (rdr_w b) \<le> vlen (rdr_buf b)" by simp_all
  then show ?thesis by (rule that)
qed

lemma view_subarray_nat:
  "x \<le> y \<Longrightarrow> y \<le> vlen v \<Longrightarrow>
   view_subarray v (int x) (int y) = \<lparr>vaddr = vaddr v, voff = voff v + x, vlen = y - x\<rparr>"
  by (simp add: view_subarray_def rel_index_def Let_def)

lemma buf_view:
  assumes "voff v = 0" "length (h ! vaddr v) = vlen v" "x \<le> y" "y \<le> vlen v"
  shows "view_bytes h (view_subarray v (int x) (int y)) = take (y - x) (drop x (h ! vaddr v))"
  using assms by (simp add: view_subarray_nat view_bytes_def)

lemma pending_nat:
  assumes "reader_wf pol b" "rdr_r b = int rn" "rdr_w b = int wn"
  shows "pending b = take (wn - rn) (drop rn (mem b ! vaddr (rdr_buf b)))"
proof -
  from assms have "rn \<le> wn" "wn \<le> vlen (rdr_buf b)"
    by (simp_all add: reader_wf_def cursors_ok_def byteLength_def)
  with assms show ?thesis
    unfolding pending_def by (simp add: buf_view reader_wf_def)
qed

lemma on_read_bytes_source:
  "on_read (bytes_source pol X) s n =
     (if s = [] then (ReadEOF, s)
      else (ReadCount (int (min (max 1 (pol s n)) (min n (length s))))
              (take (min (max 1 (pol s n)) (min n (length s))) s),
            drop (min (max 1 (pol s n)) (min n (length s))) s))"
  by (simp add: bytes_source_def Let_def)

lemma fill_loop_stream:
  assumes wf: "reader_wf pol b" and ne: "\<not> rdr_eof b" and room: "rdr_w b < byteLength b"
  shows "\<exists>b'. fill_loop b (Suc i) = (Inr (), b') \<and> reader_wf pol b' \<and> stream b' = stream b
          \<and> rdr_buf b' = rdr_buf b \<and> rdr_r b' = rdr_r b \<and> rdr_w b \<le> rdr_w b'
          \<and> take (length (pending b)) (pending b') = pending b
          \<and> (rstate (rdr_rd b) \<noteq> [] \<longrightarrow>
                length (rstate (rdr_rd b')) < length (rstate (rdr_rd b)) \<and> \<not> rdr_eof b')
          \<and> (rstate (rdr_rd b) = [] \<longrightarrow> rdr_eof b' \<and> pending b' = pending b)"
proof -
  from wf obtain rn wn where n: "rdr_r b = int rn" "rdr_w b = int wn" "rn \<le> wn"
    "wn \<le> vlen (rdr_buf b)" by (rule reader_wf_nat)
  define cap where "cap = vlen (rdr_buf b)"
  define a where "a = vaddr (rdr_buf b)"
  define cell where "cell = mem b ! a"
  from wf have w: "voff (rdr_buf b) = 0" "a < length (mem b)" "length cell = cap"
    "on_read (rdr_rd b) = on_read (bytes_source pol [])"
    by (simp_all add: reader_wf_def cap_def a_def cell_def)
  from room n have lt: "wn < cap" by (simp add: byteLength_def cap_def)
  let ?p = "view_subarray (rdr_buf b) (rdr_w b) (byteLength b)"
  have p: "?p = \<lparr>vaddr = a, voff = wn, vlen = cap - wn\<rparr>"
    using n lt w by (simp add: byteLength_def view_subarray_nat cap_def a_def)
  define s where "s = rstate (rdr_rd b)"
  show ?thesis
  proof (cases "s = []")
    case True
    then have sr: "source_read b ?p = (Inr None, b\<lparr>rdr_rd := (rdr_rd b)\<lparr>rstate := s\<rparr>\<rparr>)"
      by (simp add: source_read_def w on_read_bytes_source s_def)
    have same: "b\<lparr>rdr_rd := (rdr_rd b)\<lparr>rstate := s\<rparr>\<rparr> = b" by (simp add: s_def)
    have "fill_loop b (Suc i) = (Inr (), b\<lparr>rdr_eof := True\<rparr>)"
      using sr same by simp
    moreover have "reader_wf pol (b\<lparr>rdr_eof := True\<rparr>)"
      using wf True by (simp add: reader_wf_def cursors_ok_def byteLength_def s_def)
    moreover have "pending (b\<lparr>rdr_eof := True\<rparr>) = pending b" by (simp add: pending_def)
    ultimately show ?thesis using True by (simp add: stream_def s_def)
  next
    case False
    define k where "k = min (max 1 (pol s (cap - wn))) (min (cap - wn) (length s))"
    have k: "1 \<le> k" "k \<le> cap - wn" "k \<le> length s"
      using False lt by (auto simp: k_def Suc_le_eq)
    define cell' where "cell' = take wn cell @ take k s @ drop (wn + k) cell"
    define b1 where "b1 = b\<lparr>rdr_rd := (rdr_rd b)\<lparr>rstate := drop k s\<rparr>,
             mem := (mem b)[a := cell']\<rparr>"
    have vb: "view_bytes (mem b) \<lparr>vaddr = a, voff = wn, vlen = cap - wn\<rparr> = drop wn cell"
      using w lt by (simp add: view_bytes_def cell_def)
    let ?P = "\<lparr>vaddr = a, voff = wn, vlen = cap - wn\<rparr>"
    have st: "view_store (mem b) ?P
                (take (vlen ?P) (take k s) @ drop (length (take k s)) (view_bytes (mem b) ?P))
              = (mem b)[a := cell']"
      unfolding vb using w k lt
      by (simp add: view_store_def cell_def [symmetric] cell'_def min_def add.commute)
    have orr: "on_read (rdr_rd b) s (vlen ?P) = (ReadCount (int k) (take k s), drop k s)"
      using False by (simp add: w on_read_bytes_source k_def)
    have sr: "source_read b ?p = (Inr (Some (int k)), b1)"
      unfolding p source_read_def s_def [symmetric] orr b1_def
      by (simp only: prod.case read_outcome.case st)
    let ?b2 = "b1\<lparr>rdr_w := rdr_w b1 + int k\<rparr>"
    have fl: "fill_loop b (Suc i) = (Inr (), ?b2)"
      using sr k by simp
    have len': "length cell' = cap" using w k lt by (simp add: cell'_def)
    have kk: "int wn + int k \<le> int cap" using k lt by linarith
    have wf2: "reader_wf pol ?b2"
      using wf n k lt w len' ne kk
      by (simp add: reader_wf_def cursors_ok_def byteLength_def b1_def cap_def a_def
            bytes_source_def)
    have r2: "rdr_r ?b2 = int rn" "rdr_w ?b2 = int (wn + k)" using n by (simp_all add: b1_def)
    have cellb2: "mem ?b2 ! vaddr (rdr_buf ?b2) = cell'"
      using w by (simp add: b1_def a_def)
    have pb: "pending b = take (wn - rn) (drop rn cell)"
      using pending_nat [OF wf n(1,2)] by (simp add: cell_def a_def)
    have "pending ?b2 = take (wn + k - rn) (drop rn cell')"
      using pending_nat [OF wf2 r2] cellb2 by simp
    also have "\<dots> = take (wn - rn) (drop rn cell) @ take k s"
      using n k lt w by (auto simp: cell'_def min_def drop_take)
    finally have p2: "pending ?b2 = pending b @ take k s" using pb by simp
    have "stream ?b2 = stream b"
      using p2 by (simp add: stream_def b1_def s_def [symmetric])
    moreover have "length (rstate (rdr_rd ?b2)) < length s" using k False by (simp add: b1_def)
    moreover have "\<not> rdr_eof ?b2" using ne by (simp add: b1_def)
    ultimately show ?thesis using fl wf2 p2 False n
      by (simp add: s_def [symmetric] b1_def)
  qed
qed

lemma slide_stream:
  assumes wf: "reader_wf pol b" and pos: "rdr_r b > 0"
  defines "b1 \<equiv> b\<lparr>mem := copyWithin (mem b) (rdr_buf b) 0 (rdr_r b) (rdr_w b),
                       rdr_w := rdr_w b - rdr_r b, rdr_r := 0\<rparr>"
  shows "reader_wf pol b1 \<and> pending b1 = pending b"
proof -
  from wf obtain rn wn where n: "rdr_r b = int rn" "rdr_w b = int wn" "rn \<le> wn"
    "wn \<le> vlen (rdr_buf b)" by (rule reader_wf_nat)
  define cap where "cap = vlen (rdr_buf b)"
  define a where "a = vaddr (rdr_buf b)"
  define cell where "cell = mem b ! a"
  from wf have w: "voff (rdr_buf b) = 0" "a < length (mem b)" "length cell = cap"
    by (simp_all add: reader_wf_def cap_def a_def cell_def)
  define cell' where "cell' = take (wn - rn) (drop rn cell) @ drop (wn - rn) cell"
  have vb: "view_bytes (mem b) (rdr_buf b) = cell"
    using w by (simp add: view_bytes_def cell_def a_def cap_def)
  have ri: "rel_index cap 0 = 0" "rel_index cap (int rn) = rn" "rel_index cap (int wn) = wn"
    using n by (simp_all add: rel_index_def cap_def)
  have len': "length cell' = cap" using w n by (simp add: cell'_def cap_def)
  have cnt: "min (wn - rn) (cap - 0) = wn - rn" using n by (simp add: cap_def)
  have vs: "view_store (mem b) (rdr_buf b) cell' = (mem b)[a := cell']"
    using w len' by (simp add: view_store_def a_def cell_def cap_def)
  have "copyWithin (mem b) (rdr_buf b) 0 (int rn) (int wn)
      = view_store (mem b) (rdr_buf b) (take 0 cell @ take (wn - rn) (drop rn cell) @ drop (0 + (wn - rn)) cell)"
    unfolding copyWithin_def Let_def vb cap_def [symmetric] ri cnt ..
  then have cw: "copyWithin (mem b) (rdr_buf b) 0 (int rn) (int wn) = (mem b)[a := cell']"
    using vs by (simp add: cell'_def)
  have b1: "b1 = b\<lparr>mem := (mem b)[a := cell'], rdr_w := int (wn - rn), rdr_r := 0\<rparr>"
    using n cw by (simp add: b1_def)
  have wf1: "reader_wf pol b1"
    using wf n w len'
    by (simp add: b1 reader_wf_def cursors_ok_def byteLength_def cap_def a_def)
  have "pending b1 = take (wn - rn - 0) (drop 0 (mem b1 ! vaddr (rdr_buf b1)))"
    by (rule pending_nat [OF wf1]) (simp_all add: b1)
  also have "\<dots> = take (wn - rn) (drop rn cell)"
    using w n by (simp add: b1 a_def [symmetric] cell'_def cap_def)
  also have "\<dots> = pending b"
    using pending_nat [OF wf n(1,2)] by (simp add: cell_def a_def)
  finally show ?thesis using wf1 by simp
qed

lemma fill_stream:
  assumes wf: "reader_wf pol b" and ne: "\<not> rdr_eof b"
    and room: "rdr_w b - rdr_r b < byteLength b"
  shows "\<exists>b'. fill b = (Inr (), b') \<and> reader_wf pol b' \<and> stream b' = stream b
          \<and> rdr_buf b' = rdr_buf b \<and> rdr_w b - rdr_r b \<le> rdr_w b' - rdr_r b'
          \<and> take (length (pending b)) (pending b') = pending b
          \<and> (rstate (rdr_rd b) \<noteq> [] \<longrightarrow>
                length (rstate (rdr_rd b')) < length (rstate (rdr_rd b)) \<and> \<not> rdr_eof b')
          \<and> (rstate (rdr_rd b) = [] \<longrightarrow> rdr_eof b' \<and> pending b' = pending b)"
proof -
  let ?b1 = "if rdr_r b > 0
                then b\<lparr>mem := copyWithin (mem b) (rdr_buf b) 0 (rdr_r b) (rdr_w b),
                       rdr_w := rdr_w b - rdr_r b, rdr_r := 0\<rparr>
                else b"
  have c0: "0 \<le> rdr_r b" using wf by (simp add: reader_wf_def cursors_ok_def)
  have s1: "reader_wf pol ?b1 \<and> pending ?b1 = pending b"
    using slide_stream [OF wf] wf by simp
  have e1: "rdr_rd ?b1 = rdr_rd b" "rdr_eof ?b1 = rdr_eof b" "rdr_buf ?b1 = rdr_buf b"
    "byteLength ?b1 = byteLength b" "rdr_w ?b1 - rdr_r ?b1 = rdr_w b - rdr_r b" "rdr_r ?b1 = 0"
    using c0 by (auto simp: byteLength_def)
  have room1: "rdr_w ?b1 < byteLength ?b1" using room e1 by simp
  have ne1: "\<not> rdr_eof ?b1" using ne e1 by simp
  from fill_loop_stream [OF conjunct1 [OF s1] ne1 room1, of 99] obtain b' where
    f: "fill_loop ?b1 (Suc 99) = (Inr (), b')" "reader_wf pol b'" "stream b' = stream ?b1"
      "rdr_buf b' = rdr_buf ?b1" "rdr_r b' = rdr_r ?b1" "rdr_w ?b1 \<le> rdr_w b'"
      "take (length (pending ?b1)) (pending b') = pending ?b1"
      "rstate (rdr_rd ?b1) \<noteq> [] \<longrightarrow>
                length (rstate (rdr_rd b')) < length (rstate (rdr_rd ?b1)) \<and> \<not> rdr_eof b'"
      "rstate (rdr_rd ?b1) = [] \<longrightarrow> rdr_eof b' \<and> pending b' = pending ?b1"
    by blast
  have "fill b = (Inr (), b')"
    using f(1) room1 by (simp add: fill_def Let_def eval_nat_numeral)
  moreover have "stream ?b1 = stream b" using s1 e1 by (simp add: stream_def)
  ultimately show ?thesis using f s1 e1 by (intro exI [of _ b']) simp
qed


lemma index_from_first:
  "\<forall>x \<in> set l. unat x \<noteq> d \<Longrightarrow> unat c = d \<Longrightarrow>
   index_from (l @ c # rest) d k = k + int (length l)"
  by (induction l arbitrary: k) simp_all

lemma index_from_none:
  "\<forall>x \<in> set l. unat x \<noteq> d \<Longrightarrow> index_from l d k = - 1"
  by (induction l arbitrary: k) simp_all

lemma readSlice_loop_stream:
  assumes dl: "unat c = delim" "\<forall>x \<in> set l. unat x \<noteq> delim"
  shows "reader_wf pol b \<Longrightarrow> stream b = l @ c # rest \<Longrightarrow> length l + 1 \<le> vlen (rdr_buf b)
    \<Longrightarrow> sn \<le> length (pending b) \<Longrightarrow> sn \<le> length l \<Longrightarrow>
    \<exists>slice b'. readSlice_loop b delim (int sn) = Some (Inr (Some slice), b')
       \<and> view_bytes (mem b') slice = l @ [c] \<and> reader_wf pol b' \<and> stream b' = rest
       \<and> rdr_buf b' = rdr_buf b"
proof (induction "length (rstate (rdr_rd b))" arbitrary: b sn rule: less_induct)
  case less
  note wf = less.prems(1) and st = less.prems(2) and fits = less.prems(3)
    and sp = less.prems(4) and sl = less.prems(5)
  from wf obtain rn wn where n: "rdr_r b = int rn" "rdr_w b = int wn" "rn \<le> wn"
    "wn \<le> vlen (rdr_buf b)" by (rule reader_wf_nat)
  define cap where "cap = vlen (rdr_buf b)"
  define cell where "cell = mem b ! vaddr (rdr_buf b)"
  from wf have w: "voff (rdr_buf b) = 0" "length cell = cap"
    "rdr_eof b \<longrightarrow> rstate (rdr_rd b) = []"
    by (simp_all add: reader_wf_def cap_def cell_def)
  define P where "P = pending b"
  have P: "P = take (wn - rn) (drop rn cell)"
    using pending_nat [OF wf n(1,2)] by (simp add: P_def cell_def)
  have lP: "length P = wn - rn" using P w n by (simp add: cap_def)
  have sP: "sn \<le> wn - rn" using sp lP by (simp add: P_def)
  have search: "view_bytes (mem b) (view_subarray (rdr_buf b) (rdr_r b + int sn) (rdr_w b))
      = drop sn P"
  proof -
    have "rdr_r b + int sn = int (rn + sn)" using n by simp
    moreover have "rn + sn \<le> wn" using sP n by simp
    ultimately have "view_bytes (mem b) (view_subarray (rdr_buf b) (rdr_r b + int sn) (rdr_w b))
        = take (wn - (rn + sn)) (drop (rn + sn) cell)"
      unfolding n(2) cell_def using n(4) w
      by (simp only: cap_def cell_def buf_view)
    also have "\<dots> = drop sn P"
      unfolding P by (simp add: drop_take add.commute)
    finally show ?thesis .
  qed
  show ?case
  proof (cases "length l < length P")
    case True
    from st have "P @ rstate (rdr_rd b) = l @ c # rest" by (simp add: stream_def P_def)
    with True obtain q where Pq: "P = l @ c # q" and rq: "rest = q @ rstate (rdr_rd b)"
      by (auto simp: append_eq_append_conv2 append_eq_Cons_conv) 
    have "drop sn P = drop sn l @ c # q" using sl by (simp add: Pq)
    moreover have "\<forall>x \<in> set (drop sn l). unat x \<noteq> delim"
      using dl(2) by (meson in_set_dropD)
    ultimately have idx: "index_of (drop sn P) delim = int (length l - sn)"
      using dl(1) by (simp add: index_of_def index_from_first)
    have i': "int (length l - sn) + int sn = int (length l)" using sl by simp
    have le: "rn + (length l + 1) \<le> wn" using True lP by simp
    let ?slice = "view_subarray (rdr_buf b) (rdr_r b) (rdr_r b + int (length l) + 1)"
    let ?b' = "b\<lparr>rdr_r := rdr_r b + (int (length l) + 1)\<rparr>"
    have e: "rdr_r b + int (length l) + 1 = int (rn + (length l + 1))" using n by simp
    have sl_bytes: "view_bytes (mem b) ?slice = l @ [c]"
    proof -
      have "view_bytes (mem b) (view_subarray (rdr_buf b) (int rn) (int (rn + (length l + 1))))
          = take (rn + (length l + 1) - rn) (drop rn (mem b ! vaddr (rdr_buf b)))"
        by (rule buf_view) (use le n w in \<open>simp_all add: cell_def cap_def\<close>)
      then have "view_bytes (mem b) ?slice = take (rn + (length l + 1) - rn) (drop rn cell)"
        using n(1) by (simp add: cell_def ac_simps)
      also have "\<dots> = take (length l + 1) P"
        unfolding P using True lP by (simp add: min_def)
      finally show ?thesis by (simp add: Pq)
    qed
    have wf': "reader_wf pol ?b'"
      using wf n le by (simp add: reader_wf_def cursors_ok_def byteLength_def)
    have "pending ?b' = take (wn - (rn + (length l + 1))) (drop (rn + (length l + 1)) (mem ?b' ! vaddr (rdr_buf ?b')))"
      by (rule pending_nat [OF wf']) (simp_all add: n)
    also have "\<dots> = drop (length l + 1) P"
      unfolding P by (simp add: drop_take cell_def add.commute)
    finally have "pending ?b' = q" by (simp add: Pq)
    then have st': "stream ?b' = rest" by (simp add: stream_def rq)
    have "readSlice_loop b delim (int sn) = Some (Inr (Some ?slice), ?b')"
      by (subst readSlice_loop.simps) (simp add: search idx i' Let_def add.assoc)
    with sl_bytes wf' st' show ?thesis by auto
  next
    case False
    then have Pl: "length P \<le> length l" by simp
    from st have eq: "P @ rstate (rdr_rd b) = l @ c # rest" by (simp add: stream_def P_def)
    with Pl obtain q where lq: "l = P @ q" and rs: "rstate (rdr_rd b) = q @ c # rest"
      by (auto simp: append_eq_append_conv2 append_eq_Cons_conv)
    then have rne: "rstate (rdr_rd b) \<noteq> []" by simp
    with w have ne: "\<not> rdr_eof b" by auto
    have "\<forall>x \<in> set (drop sn P). unat x \<noteq> delim"
      using dl(2) lq by (auto dest: in_set_dropD)
    then have idx: "index_of (drop sn P) delim = - 1"
      by (simp add: index_of_def index_from_none)
    have room: "rdr_w b - rdr_r b < byteLength b"
      using n lP Pl fits by (simp add: byteLength_def)
    from fill_stream [OF wf ne room] rne obtain b1 where
      f: "fill b = (Inr (), b1)" "reader_wf pol b1" "stream b1 = stream b"
         "rdr_buf b1 = rdr_buf b" "take (length (pending b)) (pending b1) = pending b"
         "length (rstate (rdr_rd b1)) < length (rstate (rdr_rd b))"
      by blast
    have lp1: "length P \<le> length (pending b1)"
      using f(5) by (metis P_def length_take min.cobounded2 min.commute)
    from less.hyps [OF f(6) f(2) _ _ lp1 Pl] f(3,4) st fits obtain slice b' where
      r: "readSlice_loop b1 delim (int (length P)) = Some (Inr (Some slice), b')"
         "view_bytes (mem b') slice = l @ [c]" "reader_wf pol b'" "stream b' = rest"
         "rdr_buf b' = rdr_buf b1" by auto
    have nf: "\<not> reader_buffered b \<ge> byteLength b"
      using room by (simp add: reader_buffered_def)
    have s': "rdr_w b - rdr_r b = int (length P)" using n lP by simp
    have "readSlice_loop b delim (int sn) = Some (Inr (Some slice), b')"
      by (subst readSlice_loop.simps) (simp add: search idx ne nf f(1) s' r(1) Let_def)
    with r f(4) show ?thesis by auto
  qed
qed


lemma readSlice_loop_end:
  assumes wf: "reader_wf pol b" and st: "stream b = []" and cap: "0 < vlen (rdr_buf b)"
  shows "\<exists>b'. readSlice_loop b delim 0 = Some (Inr None, b')"
proof -
  from wf obtain rn wn where n: "rdr_r b = int rn" "rdr_w b = int wn" "rn \<le> wn"
    "wn \<le> vlen (rdr_buf b)" by (rule reader_wf_nat)
  from st have p: "pending b = []" and rs: "rstate (rdr_rd b) = []" by (simp_all add: stream_def)
  have at_end: "readSlice_loop c delim 0 = Some (Inr None, c)"
    if "pending c = []" "rdr_eof c" "reader_wf pol c" for c
  proof -
    from that(3) obtain rc wc where c: "rdr_r c = int rc" "rdr_w c = int wc" "rc \<le> wc"
      "wc \<le> vlen (rdr_buf c)" by (rule reader_wf_nat)
    from that(3) have "length (mem c ! vaddr (rdr_buf c)) = vlen (rdr_buf c)"
      by (simp add: reader_wf_def)
    with pending_nat [OF that(3) c(1,2)] that(1) c have "wc = rc" by auto
    with c have eq: "rdr_r c = rdr_w c" by simp
    from that(1) have "view_bytes (mem c) (view_subarray (rdr_buf c) (rdr_r c) (rdr_w c)) = []"
      by (simp add: pending_def)
    then show ?thesis using that(2) eq
      by (subst readSlice_loop.simps) (simp add: index_of_def)
  qed
  show ?thesis
  proof (cases "rdr_eof b")
    case True
    from at_end [OF p True wf] show ?thesis by blast
  next
    case False
    from wf have len: "length (mem b ! vaddr (rdr_buf b)) = vlen (rdr_buf b)"
      by (simp add: reader_wf_def)
    with pending_nat [OF wf n(1,2)] p n have wr: "wn = rn" by auto
    then have room: "rdr_w b - rdr_r b < byteLength b" using n cap by (simp add: byteLength_def)
    from fill_stream [OF wf False room] rs obtain b1 where
      f: "fill b = (Inr (), b1)" "reader_wf pol b1" "rdr_eof b1" "pending b1 = pending b"
      by blast
    have nf: "\<not> reader_buffered b \<ge> byteLength b"
      using room by (simp add: reader_buffered_def)
    have s0: "rdr_w b - rdr_r b = 0" using n wr by simp
    have "view_bytes (mem b) (view_subarray (rdr_buf b) (rdr_r b) (rdr_w b)) = []"
      using p by (simp add: pending_def)
    then have "readSlice_loop b delim 0 = readSlice_loop b1 delim 0"
      using False nf f(1) s0
      by (subst readSlice_loop.simps) (simp add: index_of_def)
    with at_end [of b1] f p show ?thesis by simp
  qed
qed

lemma readLine_line:
  assumes wf: "reader_wf pol b" and st: "stream b = l @ LF # rest" and l: "LF \<notin> set l"
    and fits: "length l < vlen (rdr_buf b)"
  shows "\<exists>line b'. readLine b = Some (Inr (Some (line, False)), b')
           \<and> view_bytes (mem b') line = strip_eol (l @ [LF])
           \<and> reader_wf pol b' \<and> stream b' = rest \<and> rdr_buf b' = rdr_buf b"
proof -
  have d: "\<forall>x \<in> set l. unat x \<noteq> unat LF" using l by (auto simp: word_unat_eq_iff [symmetric])
  from fits have f: "length l + 1 \<le> vlen (rdr_buf b)" by simp
  from readSlice_loop_stream [OF refl d wf st f, of 0]
  obtain slice b' where r: "readSlice_loop b (unat LF) 0 = Some (Inr (Some slice), b')"
    "view_bytes (mem b') slice = l @ [LF]" "reader_wf pol b'" "stream b' = rest"
    "rdr_buf b' = rdr_buf b" by auto
  from r(2) have "length (view_bytes (mem b') slice) = length l + 1" by simp
  then have v: "0 < vlen slice" by simp
  from r(1) v have "readLine b = Some (Inr (Some (readLine_strip (mem b') slice, False)), b')"
    by (simp add: readLine_def readSlice_def)
  moreover have "view_bytes (mem b') (readLine_strip (mem b') slice) = strip_eol (l @ [LF])"
    using readLine_strip_eol [OF v, of "mem b'"] r(2) by simp
  ultimately show ?thesis using r by blast
qed

lemma readLine_end:
  assumes "reader_wf pol b" "stream b = []" "0 < vlen (rdr_buf b)"
  shows "\<exists>b'. readLine b = Some (Inr None, b')"
  using readSlice_loop_end [OF assms, of "unat LF"]
  by (auto simp: readLine_def readSlice_def)

lemma new_BufReader_wf:
  "reader_wf pol (new_BufReader h (bytes_source pol X) size')
   \<and> stream (new_BufReader h (bytes_source pol X) size') = X
   \<and> 16 \<le> vlen (rdr_buf (new_BufReader h (bytes_source pol X) size'))"
  by (simp add: reader_wf_def new_BufReader_def alloc_def Let_def cursors_ok_def byteLength_def
      stream_def pending_def view_subarray_def rel_index_def view_bytes_def bytes_source_def
      MIN_BUF_SIZE_def) linarith


lemma strip_eol_line:
  "strip_eol (l @ [LF]) = (if l \<noteq> [] \<and> last l = CR then butlast l else l)"
proof (cases "l = []")
  case True
  then show ?thesis by (simp add: strip_eol_def)
next
  case False
  then have "(l @ [LF]) ! (length l - 1) = last l"
    by (simp add: nth_append last_conv_nth)
  with False show ?thesis
    by (simp add: strip_eol_def butlast_conv_take)
qed

text \<open>
  Claim C7.  Over a source that holds exactly the bytes \<^verbatim>\<open>abc\<close>, CR, LF, \<^verbatim>\<open>def\<close>, LF,
  whatever the sizes of the pieces in which it delivers them, whatever the capacity
  asked for, three calls of \<^verbatim>\<open>readLine()\<close> return the line \<^verbatim>\<open>abc\<close> with \<^verbatim>\<open>more\<close>
  false, the line \<^verbatim>\<open>def\<close> with \<^verbatim>\<open>more\<close> false, and \<^verbatim>\<open>null\<close>.  In general, when the
  bytes still to deliver are a line \<open>l\<close> without LF that fits the buffer, then LF, then
  \<open>rest\<close>, \<^verbatim>\<open>readLine\<close> returns \<open>l\<close> without one trailing CR, with \<^verbatim>\<open>more\<close> false, and
  leaves \<open>rest\<close> to deliver; and over any reader, when \<^verbatim>\<open>readSlice(LF)\<close> returns a
  non-empty part, \<^verbatim>\<open>readLine\<close> returns it without one trailing LF and without one CR
  just before that LF, with \<^verbatim>\<open>more\<close> false.
\<close>

theorem readLine_lines:
  "readLine_times (new_BufReader h
        (bytes_source pol [97, 98, 99, 13, 10, 100, 101, 102, 10]) size') 3
     = Some [Inr (Some ([97, 98, 99], False)), Inr (Some ([100, 101, 102], False)), Inr None]
   \<and> (reader_wf pol b \<and> stream b = l @ LF # rest \<and> LF \<notin> set l
        \<and> length l < vlen (rdr_buf b) \<longrightarrow>
        (\<exists>line b'. readLine b = Some (Inr (Some (line, False)), b')
            \<and> view_bytes (mem b') line = (if l \<noteq> [] \<and> last l = CR then butlast l else l)
            \<and> reader_wf pol b' \<and> stream b' = rest))
   \<and> (readSlice c (unat LF) = Some (Inr (Some part), c') \<and> 0 < vlen part \<longrightarrow>
        (\<exists>line'. readLine c = Some (Inr (Some (line', False)), c')
                \<and> view_bytes (mem c') line' = strip_eol (view_bytes (mem c') part)))"
proof (intro conjI impI)
  let ?X = "[97, 98, 99, 13, 10, 100, 101, 102, 10] :: bytes"
  let ?B = "new_BufReader h (bytes_source pol ?X) size'"
  from new_BufReader_wf [of pol h ?X size']
  have wf0: "reader_wf pol ?B" and st0: "stream ?B = [97, 98, 99, 13] @ LF # [100, 101, 102, 10]"
    and cap: "16 \<le> vlen (rdr_buf ?B)" by (simp_all add: LF_def)
  have l1: "LF \<notin> set [97, 98, 99, 13 :: byte]" by (simp add: LF_def)
  have f1: "length [97, 98, 99, 13 :: byte] < vlen (rdr_buf ?B)" using cap by simp
  from readLine_line [OF wf0 st0 l1 f1] obtain line1 b1 where
    r1: "readLine ?B = Some (Inr (Some (line1, False)), b1)"
      "view_bytes (mem b1) line1 = strip_eol ([97, 98, 99, 13] @ [LF])"
      "reader_wf pol b1" "stream b1 = [100, 101, 102, 10]" "rdr_buf b1 = rdr_buf ?B"
    by blast
  have st1: "stream b1 = [100, 101, 102] @ LF # []" using r1(4) by (simp add: LF_def)
  have l2: "LF \<notin> set [100, 101, 102 :: byte]" by (simp add: LF_def)
  have f2: "length [100, 101, 102 :: byte] < vlen (rdr_buf b1)" using cap r1(5) by simp
  from readLine_line [OF r1(3) st1 l2 f2] obtain line2 b2 where
    r2: "readLine b1 = Some (Inr (Some (line2, False)), b2)"
      "view_bytes (mem b2) line2 = strip_eol ([100, 101, 102] @ [LF])"
      "reader_wf pol b2" "stream b2 = []" "rdr_buf b2 = rdr_buf b1"
    by blast
  have "0 < vlen (rdr_buf b2)" using cap r1(5) r2(5) by simp
  from readLine_end [OF r2(3,4) this] obtain b3 where r3: "readLine b2 = Some (Inr None, b3)"
    by blast
  have v1: "view_bytes (mem b1) line1 = [97, 98, 99]"
    unfolding r1(2) strip_eol_line by (simp add: CR_def)
  have v2: "view_bytes (mem b2) line2 = [100, 101, 102]"
    unfolding r2(2) strip_eol_line by (simp add: CR_def)
  show "readLine_times ?B 3
     = Some [Inr (Some ([97, 98, 99], False)), Inr (Some ([100, 101, 102], False)), Inr None]"
    by (simp add: numeral_3_eq_3 r1(1) r2(1) r3 v1 v2)
next
  assume "reader_wf pol b \<and> stream b = l @ LF # rest \<and> LF \<notin> set l
        \<and> length l < vlen (rdr_buf b)"
  then have a: "reader_wf pol b" "stream b = l @ LF # rest" "LF \<notin> set l"
    "length l < vlen (rdr_buf b)" by simp_all
  from readLine_line [OF a] show "\<exists>line b'. readLine b = Some (Inr (Some (line, False)), b')
            \<and> view_bytes (mem b') line = (if l \<noteq> [] \<and> last l = CR then butlast l else l)
            \<and> reader_wf pol b' \<and> stream b' = rest"
    unfolding strip_eol_line by blast
next
  assume "readSlice c (unat LF) = Some (Inr (Some part), c') \<and> 0 < vlen part"
  then show "\<exists>line'. readLine c = Some (Inr (Some (line', False)), c')
                \<and> view_bytes (mem c') line' = strip_eol (view_bytes (mem c') part)"
    by (simp add: readLine_def readLine_strip_eol)
qed

theorem readLine_lines_witness:
  "(\<exists>line b'.
      readLine (new_BufReader [] (bytes_source (\<lambda>s n. 2)
                  [97, 98, 99, 13, 10, 100, 101, 102, 10]) 16)
        = Some (Inr (Some (line, False)), b')
      \<and> view_bytes (mem b') line = [97, 98, 99]
      \<and> stream b' = [100, 101, 102, 10])
   \<and> (\<exists>part b' line'.
      readSlice (new_BufReader [] (bytes_source (\<lambda>s n. 2)
                  [97, 98, 99, 13, 10, 100, 101, 102, 10]) 16) (unat LF)
        = Some (Inr (Some part), b')
      \<and> 0 < vlen part
      \<and> readLine (new_BufReader [] (bytes_source (\<lambda>s n. 2)
                  [97, 98, 99, 13, 10, 100, 101, 102, 10]) 16)
        = Some (Inr (Some (line', False)), b')
      \<and> view_bytes (mem b') line' = strip_eol (view_bytes (mem b') part))"
proof -
  let ?pol = "(\<lambda>s n. 2) :: bytes \<Rightarrow> nat \<Rightarrow> nat"
  let ?B = "new_BufReader [] (bytes_source ?pol [97, 98, 99, 13, 10, 100, 101, 102, 10]) 16"
  from new_BufReader_wf [of ?pol "[]" "[97, 98, 99, 13, 10, 100, 101, 102, 10]" 16]
  have wf: "reader_wf ?pol ?B" and st: "stream ?B = [97, 98, 99, 13] @ LF # [100, 101, 102, 10]"
    and cap: "length [97, 98, 99, 13 :: byte] < vlen (rdr_buf ?B)" by (simp_all add: LF_def)
  have nl: "LF \<notin> set [97, 98, 99, 13 :: byte]" by (simp add: LF_def)
  from readLine_lines [where pol = ?pol and b = ?B and l = "[97, 98, 99, 13]"
      and rest = "[100, 101, 102, 10]"] wf st cap nl
  have first: "\<exists>line b'. readLine ?B = Some (Inr (Some (line, False)), b')
      \<and> view_bytes (mem b') line = [97, 98, 99] \<and> stream b' = [100, 101, 102, 10]"
    by (simp add: CR_def) blast
  have "(case readSlice ?B (unat LF) of
           Some (Inr (Some l), b') \<Rightarrow> 0 < vlen l | _ \<Rightarrow> False)" by code_simp
  then obtain part b' where rs: "readSlice ?B (unat LF) = Some (Inr (Some part), b')"
    and v: "0 < vlen part"
    by (auto split: option.splits sum.splits prod.splits)
  from readLine_lines [where c = ?B and part = part and c' = b'] rs v
  have "\<exists>line'. readLine ?B = Some (Inr (Some (line', False)), b')
      \<and> view_bytes (mem b') line' = strip_eol (view_bytes (mem b') part)" by blast
  with rs v first show ?thesis by blast
qed

subsection \<open>The buffer-full error of readSlice\<close>


lemma readSlice_loop_buffer_full:
  assumes dl: "\<forall>x \<in> set pre. unat x \<noteq> delim"
  shows "reader_wf pol b \<Longrightarrow> \<not> rdr_eof b \<Longrightarrow> stream b = pre @ rest
    \<Longrightarrow> length pre = vlen (rdr_buf b) \<Longrightarrow> sn \<le> length (pending b) \<Longrightarrow>
    \<exists>b1. readSlice_loop b delim (int sn) = Some (Inl (JsError BufferFull (Some (rdr_buf b))), b1)
       \<and> view_bytes (mem b1) (rdr_buf b) = pre
       \<and> view_bytes (mem b1) (rdr_buf b1) = pre
       \<and> vaddr (rdr_buf b1) \<noteq> vaddr (rdr_buf b)
       \<and> reader_wf pol b1 \<and> stream b1 = rest"
proof (induction "length (rstate (rdr_rd b))" arbitrary: b sn rule: less_induct)
  case less
  note wf = less.prems(1) and ne = less.prems(2) and st = less.prems(3)
    and full = less.prems(4) and sp = less.prems(5)
  from wf obtain rn wn where n: "rdr_r b = int rn" "rdr_w b = int wn" "rn \<le> wn"
    "wn \<le> vlen (rdr_buf b)" by (rule reader_wf_nat)
  define cap where "cap = vlen (rdr_buf b)"
  define cell where "cell = mem b ! vaddr (rdr_buf b)"
  from wf have w: "voff (rdr_buf b) = 0" "length cell = cap"
    "vaddr (rdr_buf b) < length (mem b)"
    by (simp_all add: reader_wf_def cap_def cell_def)
  define P where "P = pending b"
  have P: "P = take (wn - rn) (drop rn cell)"
    using pending_nat [OF wf n(1,2)] by (simp add: P_def cell_def)
  have lP: "length P = wn - rn" using P w n by (simp add: cap_def)
  have sP: "sn \<le> wn - rn" using sp lP by (simp add: P_def)
  have search: "view_bytes (mem b) (view_subarray (rdr_buf b) (rdr_r b + int sn) (rdr_w b))
      = drop sn P"
  proof -
    have "rdr_r b + int sn = int (rn + sn)" using n by simp
    moreover have "rn + sn \<le> wn" using sP n by simp
    ultimately have "view_bytes (mem b) (view_subarray (rdr_buf b) (rdr_r b + int sn) (rdr_w b))
        = take (wn - (rn + sn)) (drop (rn + sn) cell)"
      unfolding n(2) cell_def using n(4) w
      by (simp only: cap_def cell_def buf_view)
    also have "\<dots> = drop sn P"
      unfolding P by (simp add: drop_take add.commute)
    finally show ?thesis .
  qed
  from st have eq: "P @ rstate (rdr_rd b) = pre @ rest" by (simp add: stream_def P_def)
  have Ple: "length P \<le> length pre" using lP n full by simp
  with eq obtain q where pq: "pre = P @ q" and rs: "rstate (rdr_rd b) = q @ rest"
    by (auto simp: append_eq_append_conv2)
  have "\<forall>x \<in> set (drop sn P). unat x \<noteq> delim"
    using dl pq by (auto dest: in_set_dropD)
  then have idx: "index_of (drop sn P) delim = - 1"
    by (simp add: index_of_def index_from_none)
  show ?case
  proof (cases "length P = cap")
    case True
    with lP n have rw: "rn = 0" "wn = cap" by (simp_all add: cap_def)
    have Pc: "P = cell" using P rw w by simp
    from True pq full have q: "q = []" by (simp add: cap_def)
    with pq rs have pre: "pre = cell" and rest: "rstate (rdr_rd b) = rest" by (simp_all add: Pc)
    have whole: "view_bytes (mem b) (rdr_buf b) = cell"
      using w by (simp add: view_bytes_def cell_def cap_def)
    define b1 where "b1 = b\<lparr>rdr_r := rdr_w b,
                 rdr_buf := \<lparr>vaddr = length (mem b), voff = 0, vlen = length cell\<rparr>,
                 mem := mem b @ [cell]\<rparr>"
    have fl: "reader_buffered b \<ge> byteLength b"
      using n rw by (simp add: reader_buffered_def byteLength_def cap_def)
    have vs: "view_subarray (rdr_buf b) 0 (byteLength b) = rdr_buf b"
      by (simp add: byteLength_def view_subarray_whole)
    have "readSlice_loop b delim (int sn) = Some (Inl (JsError BufferFull (Some (rdr_buf b))), b1)"
      by (subst readSlice_loop.simps)
         (simp add: search idx ne fl Let_def alloc_def vs whole b1_def)
    moreover have "view_bytes (mem b1) (rdr_buf b) = pre"
      using w whole by (simp add: b1_def view_bytes_append pre)
    moreover have "view_bytes (mem b1) (rdr_buf b1) = pre"
      by (simp add: b1_def pre view_bytes_alloc del: length_view_bytes)
    moreover have "vaddr (rdr_buf b1) \<noteq> vaddr (rdr_buf b)"
      using w by (simp add: b1_def)
    moreover have wf1: "reader_wf pol b1"
      using wf ne n rw w
      by (simp add: reader_wf_def b1_def cursors_ok_def byteLength_def cap_def)
    moreover have "stream b1 = rest"
    proof -
      have "pending b1 = take (cap - cap) (drop cap (mem b1 ! vaddr (rdr_buf b1)))"
        by (rule pending_nat [OF wf1]) (simp_all add: b1_def n rw)
      then show ?thesis by (simp add: stream_def b1_def rest)
    qed
    ultimately show ?thesis by blast
  next
    case False
    with Ple full have lt: "length P < cap" by (simp add: cap_def)
    with pq full have "q \<noteq> []" by (auto simp: cap_def)
    with rs have rne: "rstate (rdr_rd b) \<noteq> []" by simp
    have room: "rdr_w b - rdr_r b < byteLength b"
      using n lP lt by (simp add: byteLength_def cap_def)
    from fill_stream [OF wf ne room] rne obtain b' where
      f: "fill b = (Inr (), b')" "reader_wf pol b'" "stream b' = stream b"
         "rdr_buf b' = rdr_buf b" "take (length (pending b)) (pending b') = pending b"
         "length (rstate (rdr_rd b')) < length (rstate (rdr_rd b))" "\<not> rdr_eof b'"
      by blast
    have lp1: "length P \<le> length (pending b')"
      using f(5) by (metis P_def length_take min.cobounded2 min.commute)
    from less.hyps [OF f(6) f(2) f(7) _ _ lp1] f(3,4) st full obtain b1 where
      r: "readSlice_loop b' delim (int (length P))
            = Some (Inl (JsError BufferFull (Some (rdr_buf b'))), b1)"
         "view_bytes (mem b1) (rdr_buf b') = pre" "view_bytes (mem b1) (rdr_buf b1) = pre"
         "vaddr (rdr_buf b1) \<noteq> vaddr (rdr_buf b')" "reader_wf pol b1" "stream b1 = rest"
      by auto
    have nf: "\<not> reader_buffered b \<ge> byteLength b"
      using room by (simp add: reader_buffered_def)
    have s': "rdr_w b - rdr_r b = int (length P)" using n lP by simp
    have "readSlice_loop b delim (int sn)
        = Some (Inl (JsError BufferFull (Some (rdr_buf b'))), b1)"
      by (subst readSlice_loop.simps) (simp add: search idx ne nf f(1) s' r(1) Let_def)
    with r f(4) show ?thesis by auto
  qed
qed


text \<open>
  Claim C5.  A reader that has not met the end of its stream, and whose next bytes, as
  many as the internal buffer holds, are without the delimiter: \<^verbatim>\<open>readSlice\<close> fills the
  buffer and throws a \<^verbatim>\<open>BufferFullError\<close> whose \<^verbatim>\<open>partial\<close> is the reader's whole
  internal buffer, holding these bytes.  Whenever \<^verbatim>\<open>readSlice\<close> throws this error,
  over any source, the \<^verbatim>\<open>partial\<close> is the whole internal buffer, of the reader's
  capacity, and the reader has moved to a newly allocated buffer with the same
  contents; whatever operations are performed on the reader afterwards, the bytes of
  the payload stay as they were, as long as the caller does not itself hand the
  payload's buffer to \<^verbatim>\<open>read\<close> or \<^verbatim>\<open>readFull\<close> as the destination.
\<close>

theorem buffer_full_payload:
  "(reader_wf pol c \<and> \<not> rdr_eof c \<and> stream c = pre @ rest
      \<and> length pre = vlen (rdr_buf c) \<and> (\<forall>x \<in> set pre. unat x \<noteq> delim) \<longrightarrow>
      (\<exists>e c1. readSlice c delim = Some (Inl e, c1) \<and> ekind e = BufferFull
          \<and> epartial e = Some (rdr_buf c) \<and> int (vlen (rdr_buf c)) = byteLength c
          \<and> view_bytes (mem c1) (rdr_buf c) = pre
          \<and> reader_wf pol c1 \<and> stream c1 = rest))
   \<and> (readSlice b delim = Some (Inl e, b1) \<and> ekind e = BufferFull
     \<and> vaddr (rdr_buf b) < length (mem b) \<longrightarrow>
   epartial e = Some (rdr_buf b) \<and> int (vlen (rdr_buf b)) = byteLength b
   \<and> vaddr (rdr_buf b1) \<noteq> vaddr (rdr_buf b)
   \<and> view_bytes (mem b1) (rdr_buf b1) = view_bytes (mem b1) (rdr_buf b)
   \<and> (run_ops b1 ops = Some b2
        \<and> (\<forall>x \<in> set ops. \<forall>p. op_dest x = Some p \<longrightarrow> vaddr p \<noteq> vaddr (rdr_buf b))
      \<longrightarrow> view_bytes (mem b2) (rdr_buf b) = view_bytes (mem b1) (rdr_buf b)))"
proof (rule conjI)
  show "reader_wf pol c \<and> \<not> rdr_eof c \<and> stream c = pre @ rest
      \<and> length pre = vlen (rdr_buf c) \<and> (\<forall>x \<in> set pre. unat x \<noteq> delim) \<longrightarrow>
      (\<exists>e c1. readSlice c delim = Some (Inl e, c1) \<and> ekind e = BufferFull
          \<and> epartial e = Some (rdr_buf c) \<and> int (vlen (rdr_buf c)) = byteLength c
          \<and> view_bytes (mem c1) (rdr_buf c) = pre
          \<and> reader_wf pol c1 \<and> stream c1 = rest)"
  proof (rule impI)
    assume h: "reader_wf pol c \<and> \<not> rdr_eof c \<and> stream c = pre @ rest
      \<and> length pre = vlen (rdr_buf c) \<and> (\<forall>x \<in> set pre. unat x \<noteq> delim)"
    then have dl: "\<forall>x \<in> set pre. unat x \<noteq> delim" by simp
    from readSlice_loop_buffer_full [OF dl, of pol c rest 0] h
    obtain c1 where "readSlice_loop c delim 0 = Some (Inl (JsError BufferFull (Some (rdr_buf c))), c1)"
      "view_bytes (mem c1) (rdr_buf c) = pre" "reader_wf pol c1" "stream c1 = rest"
      by auto
    then show "\<exists>e c1. readSlice c delim = Some (Inl e, c1) \<and> ekind e = BufferFull
          \<and> epartial e = Some (rdr_buf c) \<and> int (vlen (rdr_buf c)) = byteLength c
          \<and> view_bytes (mem c1) (rdr_buf c) = pre
          \<and> reader_wf pol c1 \<and> stream c1 = rest"
      by (simp add: readSlice_def byteLength_def)
  qed
next
  show "readSlice b delim = Some (Inl e, b1) \<and> ekind e = BufferFull
     \<and> vaddr (rdr_buf b) < length (mem b) \<longrightarrow>
   epartial e = Some (rdr_buf b) \<and> int (vlen (rdr_buf b)) = byteLength b
   \<and> vaddr (rdr_buf b1) \<noteq> vaddr (rdr_buf b)
   \<and> view_bytes (mem b1) (rdr_buf b1) = view_bytes (mem b1) (rdr_buf b)
   \<and> (run_ops b1 ops = Some b2
        \<and> (\<forall>x \<in> set ops. \<forall>p. op_dest x = Some p \<longrightarrow> vaddr p \<noteq> vaddr (rdr_buf b))
      \<longrightarrow> view_bytes (mem b2) (rdr_buf b) = view_bytes (mem b1) (rdr_buf b))"
  proof (rule impI)
    assume h: "readSlice b delim = Some (Inl e, b1) \<and> ekind e = BufferFull
       \<and> vaddr (rdr_buf b) < length (mem b)"
    from readSlice_loop_full [of b delim 0 "(Inl e, b1)"] h
    have p: "epartial e = Some (rdr_buf b)" and ap: "apart (vaddr (rdr_buf b)) b1"
      and cp: "view_bytes (mem b1) (rdr_buf b1) = view_bytes (mem b1) (rdr_buf b)"
      by (simp_all add: readSlice_def)
    have "view_bytes (mem b2) (rdr_buf b) = view_bytes (mem b1) (rdr_buf b)"
      if r: "run_ops b1 ops = Some b2
          \<and> (\<forall>x \<in> set ops. \<forall>p. op_dest x = Some p \<longrightarrow> vaddr p \<noteq> vaddr (rdr_buf b))"
    proof -
      from run_ops_keeps [OF ap, of ops b2] r have "keeps (vaddr (rdr_buf b)) b1 b2" by simp
      then show ?thesis by (simp add: keeps_def view_bytes_def)
    qed
    with p ap cp show "epartial e = Some (rdr_buf b) \<and> int (vlen (rdr_buf b)) = byteLength b
     \<and> vaddr (rdr_buf b1) \<noteq> vaddr (rdr_buf b)
     \<and> view_bytes (mem b1) (rdr_buf b1) = view_bytes (mem b1) (rdr_buf b)
     \<and> (run_ops b1 ops = Some b2
          \<and> (\<forall>x \<in> set ops. \<forall>p. op_dest x = Some p \<longrightarrow> vaddr p \<noteq> vaddr (rdr_buf b))
        \<longrightarrow> view_bytes (mem b2) (rdr_buf b) = view_bytes (mem b1) (rdr_buf b))"
      by (simp add: apart_def byteLength_def)
  qed
qed

theorem buffer_full_payload_witness:
  "\<exists>e b1 b2.
     readSlice (new_BufReader [[0, 0]]
        (bytes_source (\<lambda>s n. 3) (replicate 16 97 @ [97, 10])) 16) 10 = Some (Inl e, b1)
     \<and> ekind e = BufferFull
     \<and> epartial e = Some \<lparr>vaddr = 1, voff = 0, vlen = 16\<rparr>
     \<and> stream b1 = [97, 10]
     \<and> run_ops b1 [OpReadLine, OpRead \<lparr>vaddr = 0, voff = 0, vlen = 2\<rparr>, OpReadByte, OpPeek 3, OpReadLine] = Some b2
     \<and> view_bytes (mem b2) \<lparr>vaddr = 1, voff = 0, vlen = 16\<rparr> = replicate 16 97
     \<and> view_bytes (mem b1) \<lparr>vaddr = 1, voff = 0, vlen = 16\<rparr> = replicate 16 97"
proof -
  let ?pol = "(\<lambda>s n. 3) :: bytes \<Rightarrow> nat \<Rightarrow> nat"
  let ?B = "new_BufReader [[0, 0]] (bytes_source ?pol (replicate 16 97 @ [97, 10])) 16"
  let ?ops = "[OpReadLine, OpRead \<lparr>vaddr = 0, voff = 0, vlen = 2\<rparr>, OpReadByte, OpPeek 3, OpReadLine] :: bytes reader_op list"
  have buf: "rdr_buf ?B = \<lparr>vaddr = 1, voff = 0, vlen = 16\<rparr>" "length (mem ?B) = 2"
    "\<not> rdr_eof ?B"
    by (simp_all add: new_BufReader_def alloc_def Let_def MIN_BUF_SIZE_def)
  from new_BufReader_wf [of ?pol "[[0, 0]]" "replicate 16 97 @ [97, 10]" 16]
  have wf: "reader_wf ?pol ?B" and st: "stream ?B = replicate 16 97 @ [97, 10]" by simp_all
  have nd: "\<forall>x \<in> set (replicate 16 (97 :: byte)). unat x \<noteq> 10" by simp
  have hyp: "reader_wf ?pol ?B \<and> \<not> rdr_eof ?B \<and> stream ?B = replicate 16 97 @ [97, 10]
      \<and> length (replicate 16 (97 :: byte)) = vlen (rdr_buf ?B)
      \<and> (\<forall>x \<in> set (replicate 16 (97 :: byte)). unat x \<noteq> 10)"
    using wf st nd buf by simp
  from buffer_full_payload [where pol = ?pol and c = ?B and pre = "replicate 16 97"
      and rest = "[97, 10]" and delim = 10] hyp
  have "\<exists>e c1. readSlice ?B 10 = Some (Inl e, c1) \<and> ekind e = BufferFull
          \<and> epartial e = Some (rdr_buf ?B) \<and> int (vlen (rdr_buf ?B)) = byteLength ?B
          \<and> view_bytes (mem c1) (rdr_buf ?B) = replicate 16 97
          \<and> reader_wf ?pol c1 \<and> stream c1 = [97, 10]"
    by blast
  then obtain e b1 where rs: "readSlice ?B 10 = Some (Inl e, b1)" and k: "ekind e = BufferFull"
    and c0: "view_bytes (mem b1) (rdr_buf ?B) = replicate 16 97"
    and s1: "stream b1 = [97, 10]"
    by blast
  from c0 have c: "view_bytes (mem b1) \<lparr>vaddr = 1, voff = 0, vlen = 16\<rparr> = replicate 16 97"
    unfolding buf .
  have "(case readSlice ?B 10 of
           Some (Inl e, b1) \<Rightarrow> \<not> Option.is_none (run_ops b1 ?ops)
         | _ \<Rightarrow> False)" by code_simp
  then have nn: "\<not> Option.is_none (run_ops b1 ?ops)" unfolding rs by simp
  then obtain b2 where ro: "run_ops b1 ?ops = Some b2"
    by (cases "run_ops b1 ?ops") simp_all
  have d: "\<forall>x \<in> set ?ops. \<forall>p. op_dest x = Some p \<longrightarrow> vaddr p \<noteq> vaddr (rdr_buf ?B)"
    unfolding buf by simp
  from buffer_full_payload [where b = ?B and delim = 10 and e = e and ?b1.0 = b1
      and ops = ?ops and ?b2.0 = b2] rs k ro d buf
  have "epartial e = Some \<lparr>vaddr = 1, voff = 0, vlen = 16\<rparr>"
    and "view_bytes (mem b2) \<lparr>vaddr = 1, voff = 0, vlen = 16\<rparr>
           = view_bytes (mem b1) \<lparr>vaddr = 1, voff = 0, vlen = 16\<rparr>"
    by simp_all
  with rs k c s1 ro show ?thesis by auto
qed

end
